theory Spec2Isabelle
  imports Main "HOL-Library.Multiset"
begin

section \<open>The bounded task manager (app/services/manager/base_manager.py)\<close>

subsection \<open>Jobs, threads and the manager object\<close>

text \<open>
  A job is the dictionary \<^verbatim>\<open>{"func": func, "args": args, "kwargs": kwargs}\<close> that
  \<^verbatim>\<open>add_task\<close> builds. The callable is opaque to the manager, which only reads its
  \<^verbatim>\<open>__name__\<close> and calls it; the model keeps the name (\<open>None\<close> for a callable that has
  no attribute \<^verbatim>\<open>__name__\<close>, such as a \<^verbatim>\<open>functools.partial\<close> object, on which reading it
  raises \<^verbatim>\<open>AttributeError\<close>), a token standing for the arguments,
  and what calling \<^verbatim>\<open>func\<close> on them does: it returns, it raises
  an instance of \<^verbatim>\<open>Exception\<close> (with the text \<^verbatim>\<open>str(e)\<close>), or it raises something that
  is not an \<^verbatim>\<open>Exception\<close> (\<^verbatim>\<open>SystemExit\<close> and the like), which \<^verbatim>\<open>except Exception\<close>
  does not catch. A body that never returns is not modelled: a thread then stays at
  \<open>Running\<close> for ever.
\<close>

datatype outcome = Returns | Raises string | Exits string

datatype job = Job (func_name: "string option") (payload: nat) (body: outcome)

text \<open>
  \<^verbatim>\<open>execute_task\<close> starts one thread per dispatched job with target \<^verbatim>\<open>run_task\<close>. The
  thread's program counter stops at the places where other threads can run in between:
  before each acquisition of \<^verbatim>\<open>self.lock\<close> and around the call of the job's body.
  \<^item> \<open>Started\<close>: \<^verbatim>\<open>thread.start()\<close> was called; the thread is about to take the lock for
    \<^verbatim>\<open>self.current_tasks += 1\<close>;
  \<^item> \<open>Running\<close>: about to call the job's \<^verbatim>\<open>func\<close>;
  \<^item> \<open>Finishing\<close>: in the \<^verbatim>\<open>finally\<close> clause, about to take the lock in \<^verbatim>\<open>task_done\<close>;
  \<^item> \<open>Draining\<close>: the lock of \<^verbatim>\<open>task_done\<close> is released, about to call \<^verbatim>\<open>check_queue\<close>;
  \<^item> \<open>Done\<close>: \<^verbatim>\<open>run_task\<close> is over.

  \<open>uncaught\<close> is the exception that leaves \<^verbatim>\<open>run_task\<close> after the \<^verbatim>\<open>finally\<close> clause:
  what the body raised when it is not an \<^verbatim>\<open>Exception\<close>, or the \<^verbatim>\<open>AttributeError\<close> that
  the handler itself raises when it reads \<^verbatim>\<open>func.__name__\<close> of a callable without one.
  \<open>incs\<close> and \<open>decs\<close> are history counters, which the code does not have and no operation
  reads: how often this thread has executed \<^verbatim>\<open>self.current_tasks += 1\<close> and
  \<^verbatim>\<open>self.current_tasks -= 1\<close>.
\<close>

datatype stage = Started | Running | Finishing | Draining | Done

datatype escaped = Not_an_Exception string | AttributeError_in_handler

record thread =
  task :: job
  pc :: stage
  uncaught :: "escaped option"
  incs :: nat
  decs :: nat

text \<open>What \<^verbatim>\<open>_log\<close> prints: the three messages of the class.\<close>

datatype message =
    Executing_task string int
  | Enqueuing_task string int
  | Error_while_executing_task string string

text \<open>
  The object: the fields set by \<^verbatim>\<open>__init__\<close> (the lock is implicit: every operation
  below that runs under \<^verbatim>\<open>with self.lock\<close> is one atomic step), the threads started so
  far in the order of their \<^verbatim>\<open>start()\<close>, and the printed lines. \<open>puts\<close> and \<open>gets\<close> are
  history variables, which the code does not have and no operation reads: the jobs passed to
  \<^verbatim>\<open>self.queue.put\<close> and the jobs returned by \<^verbatim>\<open>self.queue.get_nowait\<close>, in order.
\<close>

record manager =
  max_concurrent_tasks :: int
  current_tasks :: int
  queue :: "job list"
  threads :: "thread list"
  printed :: "message list"
  puts :: "job list"
  gets :: "job list"

datatype error = Configuration_error | AttributeError

subsection \<open>The methods\<close>

text \<open>
  \<^verbatim>\<open>__init__\<close> stores the limit as it is given: there is no check and no \<^verbatim>\<open>raise\<close> in it
  (and none on \<^verbatim>\<open>Settings.max_concurrent_tasks\<close>, which is a plain \<^verbatim>\<open>int\<close> field).
\<close>

definition fresh :: "int \<Rightarrow> manager" where
  "fresh k = \<lparr>max_concurrent_tasks = k, current_tasks = 0, queue = [], threads = [],
              printed = [], puts = [], gets = []\<rparr>"

definition TaskManager_init :: "int \<Rightarrow> error + manager" where
  "TaskManager_init k = Inr (fresh k)"

definition log_line :: "message \<Rightarrow> manager \<Rightarrow> manager" where
  "log_line m s = s\<lparr>printed := printed s @ [m]\<rparr>"

definition spawn :: "job \<Rightarrow> thread" where
  "spawn j = \<lparr>task = j, pc = Started, uncaught = None, incs = 0, decs = 0\<rparr>"

definition execute_task :: "job \<Rightarrow> manager \<Rightarrow> manager" where
  "execute_task j s = s\<lparr>threads := threads s @ [spawn j]\<rparr>"

text \<open>
  \<^verbatim>\<open>add_task\<close>: the whole body is one \<^verbatim>\<open>with self.lock\<close> block. In both branches the
  message is built first, from \<^verbatim>\<open>func.__name__\<close>; when the callable has none, the
  \<^verbatim>\<open>AttributeError\<close> leaves \<^verbatim>\<open>add_task\<close> before \<^verbatim>\<open>execute_task\<close> or \<^verbatim>\<open>queue.put\<close> is
  reached, and the \<^verbatim>\<open>with\<close> statement releases the lock.
\<close>

definition add_task :: "job \<Rightarrow> manager \<Rightarrow> error + manager" where
  "add_task j s =
     (if current_tasks s < max_concurrent_tasks s
      then (case func_name j of
              None \<Rightarrow> Inl AttributeError
            | Some n \<Rightarrow> Inr (execute_task j (log_line (Executing_task n (current_tasks s)) s)))
      else (case func_name j of
              None \<Rightarrow> Inl AttributeError
            | Some n \<Rightarrow>
                Inr ((log_line (Enqueuing_task n (current_tasks s)) s)
                       \<lparr>queue := queue s @ [j], puts := puts s @ [j]\<rparr>)))"

text \<open>
  \<^verbatim>\<open>check_queue\<close>: one \<^verbatim>\<open>with self.lock\<close> block. \<^verbatim>\<open>get_nowait\<close> raises \<^verbatim>\<open>Empty\<close> on an
  empty queue, and the handler returns.
\<close>

definition check_queue :: "manager \<Rightarrow> manager" where
  "check_queue s =
     (if current_tasks s < max_concurrent_tasks s
      then (case queue s of
              [] \<Rightarrow> s
            | j # q \<Rightarrow> execute_task j (s\<lparr>queue := q, gets := gets s @ [j]\<rparr>))
      else s)"

text \<open>
  \<^verbatim>\<open>task_done\<close> is two steps: the block \<^verbatim>\<open>with self.lock: self.current_tasks -= 1\<close>, and,
  after the lock is released, the call of \<^verbatim>\<open>check_queue\<close>, which takes the lock again.
\<close>

definition task_done_locked :: "manager \<Rightarrow> manager" where
  "task_done_locked s = s\<lparr>current_tasks := current_tasks s - 1\<rparr>"

definition task_done :: "manager \<Rightarrow> manager" where
  "task_done s = check_queue (task_done_locked s)"

text \<open>
  \<^verbatim>\<open>run_task\<close>, one step of thread \<open>i\<close> at a time.
  \<^item> At \<open>Started\<close>: \<^verbatim>\<open>with self.lock: self.current_tasks += 1\<close>.
  \<^item> At \<open>Running\<close>: the body is called; \<^verbatim>\<open>except Exception as e\<close> prints the error of a
    body that raised an \<^verbatim>\<open>Exception\<close> (the message is built from \<^verbatim>\<open>func.__name__\<close>, and
    without a name the handler raises instead of printing); any other exception stays
    pending while the \<^verbatim>\<open>finally\<close> clause runs.
  \<^item> At \<open>Finishing\<close> and \<open>Draining\<close>: the two steps of \<^verbatim>\<open>task_done\<close>.
\<close>

definition set_thread :: "nat \<Rightarrow> thread \<Rightarrow> manager \<Rightarrow> manager" where
  "set_thread i t s = s\<lparr>threads := (threads s)[i := t]\<rparr>"

definition call_body :: "thread \<Rightarrow> manager \<Rightarrow> thread \<times> manager" where
  "call_body t s =
     (case body (task t) of
        Returns \<Rightarrow> (t\<lparr>pc := Finishing\<rparr>, s)
      | Raises e \<Rightarrow>
          (case func_name (task t) of
             Some n \<Rightarrow> (t\<lparr>pc := Finishing\<rparr>, log_line (Error_while_executing_task n e) s)
           | None \<Rightarrow> (t\<lparr>pc := Finishing, uncaught := Some AttributeError_in_handler\<rparr>, s))
      | Exits e \<Rightarrow> (t\<lparr>pc := Finishing, uncaught := Some (Not_an_Exception e)\<rparr>, s))"

definition run_task_step :: "nat \<Rightarrow> manager \<Rightarrow> manager" where
  "run_task_step i s =
     (if i < length (threads s)
      then (let t = threads s ! i in
            case pc t of
              Started \<Rightarrow>
                set_thread i (t\<lparr>pc := Running, incs := incs t + 1\<rparr>)
                  (s\<lparr>current_tasks := current_tasks s + 1\<rparr>)
            | Running \<Rightarrow> (case call_body t s of (t', s') \<Rightarrow> set_thread i t' s')
            | Finishing \<Rightarrow>
                set_thread i (t\<lparr>pc := Draining, decs := decs t + 1\<rparr>) (task_done_locked s)
            | Draining \<Rightarrow> set_thread i (t\<lparr>pc := Done\<rparr>) (check_queue s)
            | Done \<Rightarrow> s)
      else s)"

subsection \<open>Interleavings\<close>

text \<open>
  A schedule is a list of events: a caller's \<^verbatim>\<open>add_task\<close>, or the next step of the
  thread with a given index. Every interleaving of submissions and of the threads the manager
  started is such a list, since each event is either one critical section of the lock or
  touches no field of the manager. An \<^verbatim>\<open>add_task\<close> that raises gives its exception to the
  caller and leaves the manager as it was.
\<close>

datatype event = Add_Task job | Thread_Step nat

fun step :: "event \<Rightarrow> manager \<Rightarrow> manager" where
  "step (Add_Task j) s = (case add_task j s of Inl e \<Rightarrow> s | Inr s' \<Rightarrow> s')"
| "step (Thread_Step i) s = run_task_step i s"

fun run :: "event list \<Rightarrow> manager \<Rightarrow> manager" where
  "run [] s = s"
| "run (e # es) s = run es (step e s)"

text \<open>The totals a controller instrumented to count would show.\<close>

definition total_increments :: "manager \<Rightarrow> nat" where
  "total_increments s = sum_list (map incs (threads s))"

definition total_decrements :: "manager \<Rightarrow> nat" where
  "total_decrements s = sum_list (map decs (threads s))"


text \<open>
  The jobs a schedule submits, in order: a call of \<^verbatim>\<open>add_task\<close> that raises submits
  nothing.
\<close>

fun submitted :: "event list \<Rightarrow> job list" where
  "submitted [] = []"
| "submitted (Add_Task j # es) = (if func_name j = None then submitted es else j # submitted es)"
| "submitted (Thread_Step i # es) = submitted es"

text \<open>The order in which \<^verbatim>\<open>run_task\<close> passes through its stages.\<close>

fun next_stage :: "stage \<Rightarrow> stage" where
  "next_stage Started = Running"
| "next_stage Running = Finishing"
| "next_stage Finishing = Draining"
| "next_stage Draining = Done"
| "next_stage Done = Done"

text \<open>
  The bookkeeping that every reachable state satisfies: each thread has incremented and
  decremented as often as its stage says, the counter is the difference of the totals, and
  the jobs put into the queue are the jobs taken out followed by the jobs still in it.
\<close>

definition counted :: "thread \<Rightarrow> bool" where
  "counted t =
     (case pc t of
        Started \<Rightarrow> incs t = 0 \<and> decs t = 0
      | Running \<Rightarrow> incs t = 1 \<and> decs t = 0
      | Finishing \<Rightarrow> incs t = 1 \<and> decs t = 0
      | Draining \<Rightarrow> incs t = 1 \<and> decs t = 1
      | Done \<Rightarrow> incs t = 1 \<and> decs t = 1)"

definition accounted :: "manager \<Rightarrow> bool" where
  "accounted s \<longleftrightarrow>
     list_all counted (threads s) \<and>
     current_tasks s = int (total_increments s) - int (total_decrements s) \<and>
     puts s = gets s @ queue s"

text \<open>
  How many steps a thread at a stage still has to take, and how many thread steps a state
  still has in it: each thread's remaining steps, and four for each queued job.
\<close>

fun steps_left :: "stage \<Rightarrow> nat" where
  "steps_left Started = 4"
| "steps_left Running = 3"
| "steps_left Finishing = 2"
| "steps_left Draining = 1"
| "steps_left Done = 0"

definition remaining :: "manager \<Rightarrow> nat" where
  "remaining s = sum_list (map (\<lambda>t. steps_left (pc t)) (threads s)) + 4 * length (queue s)"

text \<open>
  Some thread is not over; and no queued job is stranded: while a job waits, some thread is
  still to reach \<^verbatim>\<open>check_queue\<close>.
\<close>

definition unfinished :: "manager \<Rightarrow> bool" where
  "unfinished s \<longleftrightarrow> list_ex (\<lambda>t. pc t \<noteq> Done) (threads s)"

definition live :: "manager \<Rightarrow> bool" where
  "live s \<longleftrightarrow> queue s = [] \<or> unfinished s"

text \<open>The jobs the manager holds: those whose thread was started and those in the queue.\<close>

definition held :: "manager \<Rightarrow> job multiset" where
  "held s = mset (map task (threads s)) + mset (queue s)"

section \<open>The in-memory manager (app/services/manager/memory_manager.py)\<close>

text \<open>
  \<^verbatim>\<open>class InMemoryTaskManager(TaskManager)\<close> has four methods in its body:
  \<^verbatim>\<open>create_queue\<close>, \<^verbatim>\<open>enqueue\<close>, \<^verbatim>\<open>dequeue\<close> and \<^verbatim>\<open>is_queue_empty\<close>; everything else is
  looked up in \<^verbatim>\<open>TaskManager\<close>. The model has the two class bodies, Python's method
  resolution order, and for each method body the methods it reaches through \<^verbatim>\<open>self\<close>:
  the calls \<^verbatim>\<open>self._log(...)\<close>, \<^verbatim>\<open>self.execute_task(...)\<close>, \<^verbatim>\<open>self.task_done()\<close>,
  \<^verbatim>\<open>self.check_queue()\<close>, and the thread target \<^verbatim>\<open>self.run_task\<close>. The four methods of
  the subclass touch \<^verbatim>\<open>self.queue\<close> only. \<^verbatim>\<open>add_task\<close> and \<^verbatim>\<open>check_queue\<close> call
  \<^verbatim>\<open>self.queue.put\<close> and \<^verbatim>\<open>self.queue.get_nowait\<close>, which are methods of the queue object,
  not of \<^verbatim>\<open>self\<close>.
\<close>

datatype class_name = TaskManager | InMemoryTaskManager

datatype method_name =
    m_init | m_add_task | m_execute_task | m_run_task | m_check_queue | m_task_done | m_log
  | m_create_queue | m_enqueue | m_dequeue | m_is_queue_empty

fun class_body :: "class_name \<Rightarrow> method_name list" where
  "class_body TaskManager =
     [m_init, m_add_task, m_execute_task, m_run_task, m_check_queue, m_task_done, m_log]"
| "class_body InMemoryTaskManager = [m_create_queue, m_enqueue, m_dequeue, m_is_queue_empty]"

fun mro :: "class_name \<Rightarrow> class_name list" where
  "mro TaskManager = [TaskManager]"
| "mro InMemoryTaskManager = [InMemoryTaskManager, TaskManager]"

definition resolve :: "class_name \<Rightarrow> method_name \<Rightarrow> class_name option" where
  "resolve c m = find (\<lambda>d. m \<in> set (class_body d)) (mro c)"

fun self_calls :: "class_name \<Rightarrow> method_name \<Rightarrow> method_name list" where
  "self_calls TaskManager m_add_task = [m_log, m_execute_task]"
| "self_calls TaskManager m_execute_task = [m_run_task]"
| "self_calls TaskManager m_run_task = [m_log, m_task_done]"
| "self_calls TaskManager m_check_queue = [m_execute_task]"
| "self_calls TaskManager m_task_done = [m_check_queue]"
| "self_calls _ _ = []"

text \<open>
  \<open>runs c m (d, m')\<close>: calling \<open>m\<close> on an instance of class \<open>c\<close> executes the body of
  \<open>m'\<close> written in class \<open>d\<close>, at once or through calls on \<^verbatim>\<open>self\<close>.
\<close>

inductive runs :: "class_name \<Rightarrow> method_name \<Rightarrow> class_name \<times> method_name \<Rightarrow> bool"
  for c :: class_name and m :: method_name
  where
  entry: "resolve c m = Some d \<Longrightarrow> runs c m (d, m)"
| call: "runs c m (d, m1) \<Longrightarrow> m2 \<in> set (self_calls d m1) \<Longrightarrow> resolve c m2 = Some d2 \<Longrightarrow>
         runs c m (d2, m2)"

code_pred runs .

definition base_methods :: "method_name list" where
  "base_methods =
     [m_init, m_add_task, m_execute_task, m_run_task, m_check_queue, m_task_done, m_log]"

text \<open>
  The functions of the first section are the meaning of the bodies written in
  \<^verbatim>\<open>TaskManager\<close>, with every call on \<^verbatim>\<open>self\<close> reaching the body written in
  \<^verbatim>\<open>TaskManager\<close>. On an instance of class \<open>c\<close> an event has that meaning when every body
  it executes is one of \<^verbatim>\<open>TaskManager\<close>'s; the model has no other meaning to give
  (\<open>None\<close>) when resolution finds another body. An \<^verbatim>\<open>add_task\<close> call enters at
  \<^verbatim>\<open>add_task\<close>, a step of a thread is a part of \<^verbatim>\<open>run_task\<close>.
\<close>

fun entry_point :: "event \<Rightarrow> method_name" where
  "entry_point (Add_Task j) = m_add_task"
| "entry_point (Thread_Step i) = m_run_task"

definition inherits_all :: "class_name \<Rightarrow> method_name \<Rightarrow> bool" where
  "inherits_all c m \<longleftrightarrow> (\<forall>b. runs c m b \<longrightarrow> fst b = TaskManager)"

definition init_as :: "class_name \<Rightarrow> int \<Rightarrow> (error + manager) option" where
  "init_as c k = (if inherits_all c m_init then Some (TaskManager_init k) else None)"

definition step_as :: "class_name \<Rightarrow> event \<Rightarrow> manager \<Rightarrow> manager option" where
  "step_as c e s = (if inherits_all c (entry_point e) then Some (step e s) else None)"

fun run_as :: "class_name \<Rightarrow> event list \<Rightarrow> manager \<Rightarrow> manager option" where
  "run_as c [] s = Some s"
| "run_as c (e # es) s = (case step_as c e s of None \<Rightarrow> None | Some s' \<Rightarrow> run_as c es s')"

section \<open>Search terms from the model provider (app/repositories/gen_text/generate_text.py)\<close>

subsection \<open>One call of the provider\<close>

text \<open>
  The fields of \<^verbatim>\<open>Settings\<close> that \<^verbatim>\<open>_generate_response\<close> reads; all are \<^verbatim>\<open>str\<close>.
\<close>

record settings =
  llm_provider :: string
  open_api_key :: string
  openai_base_url :: string
  openai_model_name :: string
  gemini_api_key :: string
  gemini_model_name :: string

text \<open>
  What the provider's library does in one call is outside the repository, so it is an
  input of the model. For Gemini: the text of the first candidate; or an
  \<^verbatim>\<open>AttributeError\<close>/\<^verbatim>\<open>IndexError\<close> while reading it, which the inner handler logs, after
  which \<^verbatim>\<open>return generated_text\<close> raises \<^verbatim>\<open>UnboundLocalError\<close> (the argument is its
  text); or any other exception from the import, the configuration or the call. For OpenAI:
  a \<^verbatim>\<open>ChatCompletion\<close> with its content; one whose content is \<^verbatim>\<open>None\<close>, on which
  \<^verbatim>\<open>content.replace\<close> raises (the argument is the text of that error); a true value that
  is not a \<^verbatim>\<open>ChatCompletion\<close> (the argument is its \<^verbatim>\<open>str\<close>); a false value; or an
  exception from the client or from reading the completion. The texts of exceptions raised by the interpreter or a library
  are arguments; the texts of the \<^verbatim>\<open>raise\<close> statements of the source are written out.
\<close>

datatype gemini_reply = Gemini_text string | Gemini_no_text string | Gemini_raises string

datatype openai_reply =
    Chat_completion string
  | Chat_completion_no_content string
  | Other_response string
  | Falsy_response
  | Openai_raises string

record reply =
  gemini :: gemini_reply
  openai :: openai_reply

text \<open>\<^verbatim>\<open>content.replace("\n", "")\<close>.\<close>

definition remove_newlines :: "string \<Rightarrow> string" where
  "remove_newlines s = filter (\<lambda>c. c \<noteq> CHR 0x0A) s"

text \<open>
  The body of the \<^verbatim>\<open>try\<close> statement of \<^verbatim>\<open>_generate_response\<close>: \<open>Inr\<close> is the value it
  returns, \<open>Inl e\<close> an exception whose \<^verbatim>\<open>str\<close> is \<open>e\<close>. The checks come in the order of
  the source.
\<close>

definition try_body :: "settings \<Rightarrow> reply \<Rightarrow> string + string" where
  "try_body st r =
     (let p = llm_provider st in
      if p \<noteq> ''openai'' \<and> p \<noteq> ''gemini''
      then Inl ''llm_provider is not set, please set it in the config.toml file.''
      else
        let api_key = (if p = ''openai'' then open_api_key st else gemini_api_key st);
            model_name = (if p = ''openai'' then openai_model_name st else gemini_model_name st);
            base_url = (if p = ''openai''
                        then (if openai_base_url st = [] then ''https://api.openai.com/v1''
                              else openai_base_url st)
                        else ''***'')
        in if api_key = [] then Inl (p @ '': api_key is not set.'')
           else if model_name = [] then Inl (p @ '': model_name is not set .'')
           else if base_url = [] then Inl (p @ '': base_url is not set.'')
           else if p = ''gemini''
           then (case gemini r of
                   Gemini_text t \<Rightarrow> Inr t
                 | Gemini_no_text e \<Rightarrow> Inl e
                 | Gemini_raises e \<Rightarrow> Inl e)
           else (case openai r of
                   Openai_raises e \<Rightarrow> Inl e
                 | Falsy_response \<Rightarrow>
                     Inl (''['' @ p @ ''] returned an empty response, please check your network connection and try again.'')
                 | Other_response x \<Rightarrow>
                     Inl (''['' @ p @ ''] returned an invalid response: '' @ [CHR 0x22] @ x @
                          [CHR 0x22] @ '', please check your network connection and try again.'')
                 | Chat_completion_no_content e \<Rightarrow> Inl e
                 | Chat_completion c \<Rightarrow> Inr (remove_newlines c)))"

text \<open>
  \<^verbatim>\<open>_generate_response\<close>: the handler \<^verbatim>\<open>except Exception as e\<close> turns every exception of
  the body into the string \<^verbatim>\<open>f"Error: {e!s}"\<close>.
\<close>

definition generate_response :: "settings \<Rightarrow> reply \<Rightarrow> string" where
  "generate_response st r =
     (case try_body st r of Inr content \<Rightarrow> content | Inl e \<Rightarrow> ''Error: '' @ e)"

subsection \<open>Python values and operators\<close>

text \<open>\<^verbatim>\<open>p in s\<close> on strings: \<open>p\<close> occurs in \<open>s\<close>.\<close>

definition starts_with :: "string \<Rightarrow> string \<Rightarrow> bool" where
  "starts_with p s = (take (length p) s = p)"

fun contains :: "string \<Rightarrow> string \<Rightarrow> bool" where
  "contains p [] = (p = [])"
| "contains p (c # cs) = (starts_with p (c # cs) \<or> contains p cs)"

text \<open>
  The values \<^verbatim>\<open>json.loads\<close> returns. Of a float the code reads only whether it is zero,
  which is what \<open>PFloat\<close> keeps. \<^verbatim>\<open>json.loads\<close> itself is a parameter \<open>loads\<close> of the
  functions below, \<open>None\<close> when it raises.
\<close>

datatype pyval =
    PNone | PBool bool | PInt int | PFloat bool | PStr string
  | PList "pyval list" | PDict "(string \<times> pyval) list"

fun is_str :: "pyval \<Rightarrow> bool" where
  "is_str (PStr s) = True"
| "is_str _ = False"

fun is_str_list :: "pyval \<Rightarrow> bool" where
  "is_str_list (PList vs) = list_all is_str vs"
| "is_str_list _ = False"

text \<open>Truth value and \<^verbatim>\<open>len\<close>, which raises \<^verbatim>\<open>TypeError\<close> on a value without length.\<close>

fun truthy :: "pyval \<Rightarrow> bool" where
  "truthy PNone = False"
| "truthy (PBool b) = b"
| "truthy (PInt n) = (n \<noteq> 0)"
| "truthy (PFloat nonzero) = nonzero"
| "truthy (PStr s) = (s \<noteq> [])"
| "truthy (PList vs) = (vs \<noteq> [])"
| "truthy (PDict kvs) = (kvs \<noteq> [])"

datatype py_error = TypeError

fun len :: "pyval \<Rightarrow> py_error + nat" where
  "len (PStr s) = Inr (length s)"
| "len (PList vs) = Inr (length vs)"
| "len (PDict kvs) = Inr (length kvs)"
| "len _ = Inl TypeError"

text \<open>
  \<^verbatim>\<open>re.search(r"\[.*]", response)\<close> and \<^verbatim>\<open>match.group()\<close>: the leftmost \<^verbatim>\<open>[\<close> that
  has a \<^verbatim>\<open>]\<close> after it on the same line (\<^verbatim>\<open>.\<close> does not match a newline), up to the last
  \<^verbatim>\<open>]\<close> of that line.
\<close>

definition up_to_last_bracket :: "string \<Rightarrow> string" where
  "up_to_last_bracket l = rev (dropWhile (\<lambda>c. c \<noteq> CHR '']'') (rev l))"

fun re_search_brackets :: "string \<Rightarrow> string option" where
  "re_search_brackets [] = None"
| "re_search_brackets (c # cs) =
     (let l = takeWhile (\<lambda>x. x \<noteq> CHR 0x0A) cs in
      if c = CHR ''['' \<and> CHR '']'' \<in> set l then Some (c # up_to_last_bracket l)
      else re_search_brackets cs)"

subsection \<open>The retry loop of \<^verbatim>\<open>generate_terms\<close>\<close>

definition max_retries :: nat where
  "max_retries = 5"

text \<open>
  The handler of the loop's \<^verbatim>\<open>try\<close>, entered when \<^verbatim>\<open>json.loads(response)\<close> raises: it
  tries the bracketed part of the response and keeps the old \<^verbatim>\<open>search_terms\<close> otherwise.
\<close>

definition except_branch :: "(string \<Rightarrow> pyval option) \<Rightarrow> string \<Rightarrow> pyval \<Rightarrow> pyval" where
  "except_branch loads response search_terms =
     (if response \<noteq> []
      then (case re_search_brackets response of
              None \<Rightarrow> search_terms
            | Some m \<Rightarrow> (case loads m of None \<Rightarrow> search_terms | Some v \<Rightarrow> v))
      else search_terms)"

text \<open>\<^verbatim>\<open>if search_terms and len(search_terms) > 0: break\<close>, outside the \<^verbatim>\<open>try\<close>.\<close>

definition break_test :: "pyval \<Rightarrow> py_error + bool" where
  "break_test search_terms =
     (if truthy search_terms
      then (case len search_terms of Inl e \<Rightarrow> Inl e | Inr n \<Rightarrow> Inr (0 < n))
      else Inr False)"

text \<open>
  The loop \<^verbatim>\<open>for i in range(_max_retries)\<close> with \<open>n\<close> iterations left; \<open>world i\<close> is
  what the provider does in the call of iteration \<open>i\<close>. The result is what
  \<^verbatim>\<open>generate_terms\<close> returns, or the exception that leaves it.
\<close>

fun terms_loop ::
  "(string \<Rightarrow> pyval option) \<Rightarrow> settings \<Rightarrow> (nat \<Rightarrow> reply) \<Rightarrow> nat \<Rightarrow> nat \<Rightarrow> pyval \<Rightarrow>
   py_error + pyval" where
  "terms_loop loads st world 0 i search_terms = Inr search_terms"
| "terms_loop loads st world (Suc n) i search_terms =
     (let response = generate_response st (world i) in
      if contains ''Error: '' response then Inr (PStr response)
      else
        (case loads response of
           Some v \<Rightarrow>
             if \<not> is_str_list v then terms_loop loads st world n (Suc i) v
             else (case break_test v of
                     Inl e \<Rightarrow> Inl e
                   | Inr True \<Rightarrow> Inr v
                   | Inr False \<Rightarrow> terms_loop loads st world n (Suc i) v)
         | None \<Rightarrow>
             (let t = except_branch loads response search_terms in
              case break_test t of
                Inl e \<Rightarrow> Inl e
              | Inr True \<Rightarrow> Inr t
              | Inr False \<Rightarrow> terms_loop loads st world n (Suc i) t)))"

definition generate_terms ::
  "(string \<Rightarrow> pyval option) \<Rightarrow> settings \<Rightarrow> (nat \<Rightarrow> reply) \<Rightarrow> py_error + pyval" where
  "generate_terms loads st world = terms_loop loads st world max_retries 0 (PList [])"

section \<open>Concrete jobs and schedules\<close>

text \<open>Inputs on which the theorems below are evaluated.\<close>

definition job_a :: job where
  "job_a = Job (Some ''a'') 1 Returns"

definition job_b :: job where
  "job_b = Job (Some ''b'') 2 Returns"

definition job_c :: job where
  "job_c = Job (Some ''c'') 3 Returns"

definition job_x :: job where
  "job_x = Job (Some ''x'') 4 (Raises ''boom'')"

definition job_y :: job where
  "job_y = Job (Some ''y'') 5 (Raises ''bang'')"

text \<open>
  A callable without \<^verbatim>\<open>__name__\<close> (a \<^verbatim>\<open>functools.partial\<close> object), and a job whose body
  raises \<^verbatim>\<open>SystemExit\<close>, which is not an \<^verbatim>\<open>Exception\<close>.
\<close>

definition job_p :: job where
  "job_p = Job None 6 Returns"

definition job_z :: job where
  "job_z = Job (Some ''z'') 7 (Exits ''SystemExit'')"

text \<open>Limit 1: two submissions, then the two threads take the lock.\<close>

definition both_admitted :: "event list" where
  "both_admitted = [Add_Task job_a, Add_Task job_b, Thread_Step 0, Thread_Step 1]"

text \<open>Limit 1: the second job waits in the queue, and both run to the end.\<close>

definition two_jobs_done :: "event list" where
  "two_jobs_done =
     [Add_Task job_a, Thread_Step 0, Add_Task job_b, Thread_Step 0, Thread_Step 0,
      Thread_Step 0, Thread_Step 1, Thread_Step 1, Thread_Step 1, Thread_Step 1]"

text \<open>Limit 1: two jobs wait in the queue; the first thread and then the second finish.\<close>

definition three_queued :: "event list" where
  "three_queued =
     [Add_Task job_a, Thread_Step 0, Add_Task job_b, Add_Task job_c, Thread_Step 0,
      Thread_Step 0, Thread_Step 0, Thread_Step 1, Thread_Step 1, Thread_Step 1, Thread_Step 1]"

text \<open>
  Limit 1: the first thread has left the locked block of \<^verbatim>\<open>task_done\<close> and has not yet
  called \<^verbatim>\<open>check_queue\<close>, while a job waits in the queue.
\<close>

definition decremented_not_drained :: "event list" where
  "decremented_not_drained =
     [Add_Task job_a, Thread_Step 0, Add_Task job_b, Thread_Step 0, Thread_Step 0]"

text \<open>Limit 2: two jobs whose bodies raise, run to the end; and the stages of the first.\<close>

definition two_raising_done :: "event list" where
  "two_raising_done =
     [Add_Task job_x, Add_Task job_y, Thread_Step 0, Thread_Step 1, Thread_Step 0,
      Thread_Step 1, Thread_Step 0, Thread_Step 1, Thread_Step 0, Thread_Step 1]"

definition raising_dispatched :: "event list" where
  "raising_dispatched = [Add_Task job_x]"

definition raising_running :: "event list" where
  "raising_running = [Add_Task job_x, Thread_Step 0]"

definition raising_finishing :: "event list" where
  "raising_finishing = [Add_Task job_x, Thread_Step 0, Thread_Step 0]"

text \<open>
  Limit 1: a job is queued behind a running job whose body raises; then the body has raised
  and the counter is decremented, and the thread is about to call \<^verbatim>\<open>check_queue\<close>.
\<close>

definition queued_behind_raising :: "event list" where
  "queued_behind_raising = [Add_Task job_x, Thread_Step 0, Add_Task job_b]"

definition raising_draining :: "event list" where
  "raising_draining =
     [Add_Task job_x, Thread_Step 0, Add_Task job_b, Thread_Step 0, Thread_Step 0]"

text \<open>Limit 1: the body of the only job has raised \<^verbatim>\<open>SystemExit\<close>.\<close>

definition exiting_running :: "event list" where
  "exiting_running = [Add_Task job_z, Thread_Step 0]"

definition exiting_finishing :: "event list" where
  "exiting_finishing = [Add_Task job_z, Thread_Step 0, Thread_Step 0]"

text \<open>Settings without an API key, a provider and a parser that are never reached.\<close>

definition no_key :: settings where
  "no_key = \<lparr>llm_provider = ''openai'', open_api_key = [], openai_base_url = [],
             openai_model_name = ''gpt'', gemini_api_key = [], gemini_model_name = []\<rparr>"

definition silent :: "nat \<Rightarrow> reply" where
  "silent i = \<lparr>gemini = Gemini_raises [], openai = Falsy_response\<rparr>"

definition no_json :: "string \<Rightarrow> pyval option" where
  "no_json s = None"

section \<open>Bookkeeping along every schedule\<close>

lemmas model_defs = fresh_def add_task_def execute_task_def spawn_def log_line_def
  check_queue_def task_done_locked_def run_task_step_def set_thread_def call_body_def
  Let_def

lemma sum_list_map_update:
  "i < length xs \<Longrightarrow>
   sum_list (map f (xs[i := y])) + f (xs ! i) = sum_list (map f xs) + (f y :: nat)"
proof (induction xs arbitrary: i)
  case Nil
  then show ?case by simp
next
  case (Cons x xs)
  then show ?case by (cases i) auto
qed

lemma list_all_update:
  "list_all P xs \<Longrightarrow> P y \<Longrightarrow> list_all P (xs[i := y])"
  by (induction xs arbitrary: i) (auto split: nat.splits)

lemma accounted_fresh: "accounted (fresh k)"
  by (simp add: accounted_def fresh_def total_increments_def total_decrements_def)

lemma accounted_execute_task:
  "accounted s \<Longrightarrow> accounted (execute_task j s)"
  by (simp add: accounted_def execute_task_def spawn_def counted_def
      total_increments_def total_decrements_def)

lemma add_task_nameless: "func_name j = None \<Longrightarrow> add_task j s = Inl AttributeError"
  by (simp add: add_task_def)

lemma add_task_named:
  "func_name j = Some n \<Longrightarrow>
   add_task j s =
     Inr (if current_tasks s < max_concurrent_tasks s
          then execute_task j (log_line (Executing_task n (current_tasks s)) s)
          else (log_line (Enqueuing_task n (current_tasks s)) s)
                 \<lparr>queue := queue s @ [j], puts := puts s @ [j]\<rparr>)"
  by (simp add: add_task_def)

lemma step_nameless: "func_name j = None \<Longrightarrow> step (Add_Task j) s = s"
  by (simp add: add_task_nameless)

lemma step_named:
  "func_name j = Some n \<Longrightarrow>
   step (Add_Task j) s =
     (if current_tasks s < max_concurrent_tasks s
      then execute_task j (log_line (Executing_task n (current_tasks s)) s)
      else (log_line (Enqueuing_task n (current_tasks s)) s)
             \<lparr>queue := queue s @ [j], puts := puts s @ [j]\<rparr>)"
  by (simp add: add_task_named)

lemma accounted_add_task: "accounted s \<Longrightarrow> accounted (step (Add_Task j) s)"
proof (cases "func_name j")
  case None
  then show "accounted s \<Longrightarrow> accounted (step (Add_Task j) s)" by (simp add: add_task_nameless)
next
  case (Some n)
  then show "accounted s \<Longrightarrow> accounted (step (Add_Task j) s)"
    by (simp add: add_task_named accounted_def execute_task_def spawn_def counted_def
        log_line_def total_increments_def total_decrements_def)
qed

lemma accounted_check_queue: "accounted s \<Longrightarrow> accounted (check_queue s)"
  by (auto simp: accounted_def check_queue_def execute_task_def spawn_def counted_def
      total_increments_def total_decrements_def split: list.splits)

lemma threads_check_queue: "i < length (threads s) \<Longrightarrow> i < length (threads (check_queue s)) \<and> threads (check_queue s) ! i = threads s ! i"
  by (auto simp: check_queue_def execute_task_def nth_append split: list.splits)

lemma accounted_set_thread:
  assumes "accounted s" and "i < length (threads s)" and "counted t'"
    and "threads s' = threads s" and "puts s' = puts s" and "gets s' = gets s"
    and "queue s' = queue s"
    and "current_tasks s' + int (incs (threads s ! i)) + int (decs t') =
         current_tasks s + int (incs t') + int (decs (threads s ! i))"
  shows "accounted (set_thread i t' s')"
proof -
  have a: "sum_list (map incs ((threads s)[i := t'])) + incs (threads s ! i) =
           sum_list (map incs (threads s)) + incs t'"
    using assms(2) by (rule sum_list_map_update)
  have b: "sum_list (map decs ((threads s)[i := t'])) + decs (threads s ! i) =
           sum_list (map decs (threads s)) + decs t'"
    using assms(2) by (rule sum_list_map_update)
  have c: "list_all counted ((threads s)[i := t'])"
    using assms(1,3) by (simp add: accounted_def list_all_update)
  have d: "current_tasks s = int (sum_list (map incs (threads s))) - int (sum_list (map decs (threads s)))"
    using assms(1) by (simp add: accounted_def total_increments_def total_decrements_def)
  have e: "current_tasks s' =
        int (sum_list (map incs ((threads s)[i := t']))) -
        int (sum_list (map decs ((threads s)[i := t'])))"
    using a b d assms(8) by linarith
  show ?thesis
    using c e assms(1,4,5,6,7)
    by (simp add: accounted_def set_thread_def total_increments_def total_decrements_def)
qed

lemma accounted_run_task_step:
  assumes "accounted s"
  shows "accounted (run_task_step i s)"
proof (cases "i < length (threads s)")
  case False
  then show ?thesis using assms by (simp add: run_task_step_def Let_def)
next
  case True
  let ?t = "threads s ! i"
  have c: "counted ?t" using assms True by (simp add: accounted_def list_all_length)
  show ?thesis
  proof (cases "pc ?t")
    case Started
    have "accounted (set_thread i (?t\<lparr>pc := Running, incs := incs ?t + 1\<rparr>)
                      (s\<lparr>current_tasks := current_tasks s + 1\<rparr>))"
      using assms True c Started
      by (intro accounted_set_thread [where s = s]) (simp_all add: counted_def)
    then show ?thesis using True Started by (simp add: run_task_step_def Let_def)
  next
    case Running
    obtain t' s' where cb: "call_body ?t s = (t', s')" by (cases "call_body ?t s")
    have "accounted (set_thread i t' s')"
      using assms True c Running cb
      by (intro accounted_set_thread [where s = s])
         (auto simp: counted_def call_body_def log_line_def split: outcome.splits option.splits)
    then show ?thesis using True Running cb by (simp add: run_task_step_def Let_def)
  next
    case Finishing
    have "accounted (set_thread i (?t\<lparr>pc := Draining, decs := decs ?t + 1\<rparr>)
                      (task_done_locked s))"
      using assms True c Finishing
      by (intro accounted_set_thread [where s = s])
         (simp_all add: counted_def task_done_locked_def)
    then show ?thesis using True Finishing by (simp add: run_task_step_def Let_def)
  next
    case Draining
    have k: "i < length (threads (check_queue s))"
      and e: "threads (check_queue s) ! i = ?t"
      using threads_check_queue [OF True] by simp_all
    have "accounted (set_thread i (?t\<lparr>pc := Done\<rparr>) (check_queue s))"
      using accounted_check_queue [OF assms] k c Draining e
      by (intro accounted_set_thread [where s = "check_queue s"])
         (simp_all add: counted_def)
    then show ?thesis using True Draining by (simp add: run_task_step_def Let_def)
  next
    case Done
    then show ?thesis using assms True by (simp add: run_task_step_def Let_def)
  qed
qed

lemma accounted_step: "accounted s \<Longrightarrow> accounted (step e s)"
  by (cases e) (simp_all add: accounted_add_task [simplified] accounted_run_task_step)

lemma accounted_run: "accounted s \<Longrightarrow> accounted (run es s)"
  by (induction es arbitrary: s) (simp_all add: accounted_step)

lemma accounted_reachable: "accounted (run es (fresh k))"
  by (rule accounted_run [OF accounted_fresh])

lemma counted_bounds: "counted t \<Longrightarrow> decs t \<le> incs t \<and> incs t \<le> 1"
  by (cases "pc t") (simp_all add: counted_def)



lemma sum_list_eq_length:
  "list_all (\<lambda>x. f x = (1::nat)) xs \<Longrightarrow> sum_list (map f xs) = length xs"
  by (induction xs) auto

lemma sum_list_map_le:
  "list_all (\<lambda>x. f x \<le> (g x :: nat)) xs \<Longrightarrow> sum_list (map f xs) \<le> sum_list (map g xs)"
  by (induction xs) auto

lemma list_all_imp: "list_all P xs \<Longrightarrow> (\<And>x. P x \<Longrightarrow> Q x) \<Longrightarrow> list_all Q xs"
  by (induction xs) auto

lemma max_check_queue [simp]:
  "max_concurrent_tasks (check_queue s) = max_concurrent_tasks s"
  by (simp add: check_queue_def execute_task_def split: list.splits)

lemma max_step: "max_concurrent_tasks (step e s) = max_concurrent_tasks s"
proof (cases e)
  case (Add_Task j)
  then show ?thesis
    by (simp add: add_task_def execute_task_def log_line_def split: option.splits)
next
  case (Thread_Step i)
  then show ?thesis
    by (simp add: run_task_step_def set_thread_def call_body_def log_line_def
        task_done_locked_def Let_def split: stage.splits outcome.splits option.splits)
qed

lemma max_run: "max_concurrent_tasks (run es s) = max_concurrent_tasks s"
  by (induction es arbitrary: s) (simp_all add: max_step)

lemma quiescent_idle:
  assumes "\<forall>t \<in> set (threads (run es (fresh k))). pc t = Done"
  shows "current_tasks (run es (fresh k)) = 0"
proof -
  let ?s = "run es (fresh k)"
  have a: "accounted ?s" by (rule accounted_reachable)
  then have "list_all (\<lambda>t. decs t = 1) (threads ?s)" and "list_all (\<lambda>t. incs t = 1) (threads ?s)"
    using assms by (simp_all add: accounted_def list_all_iff counted_def)
  then have "total_increments ?s = total_decrements ?s"
    by (simp add: total_decrements_def total_increments_def sum_list_eq_length)
  then show ?thesis using a by (simp add: accounted_def)
qed

lemma run_task_step_advances:
  assumes "i < length (threads s)"
  shows "i < length (threads (run_task_step i s)) \<and>
         pc (threads (run_task_step i s) ! i) = next_stage (pc (threads s ! i))"
proof (cases "pc (threads s ! i)")
  case Draining
  with assms threads_check_queue [OF assms] show ?thesis
    by (simp add: run_task_step_def set_thread_def Let_def)
qed (use assms in \<open>simp_all add: run_task_step_def set_thread_def call_body_def
      log_line_def task_done_locked_def Let_def split: outcome.splits option.splits\<close>)


lemma run_append: "run (xs @ ys) s = run ys (run xs s)"
  by (induction xs arbitrary: s) simp_all



lemma prefix_nth: "xs = ys @ zs \<Longrightarrow> b < length ys \<Longrightarrow> ys ! b = xs ! b"
  by (simp add: nth_append)

lemma idle_step:
  assumes "max_concurrent_tasks s \<le> 0" and "current_tasks s = 0" and "threads s = []"
  shows "max_concurrent_tasks (step e s) \<le> 0 \<and> current_tasks (step e s) = 0 \<and>
         threads (step e s) = [] \<and> queue (step e s) = queue s @ submitted [e]"
  using assms
  by (cases e) (simp_all add: add_task_def log_line_def run_task_step_def split: option.splits)

lemma submitted_Cons: "submitted (e # es) = submitted [e] @ submitted es"
  by (cases e) simp_all

lemma idle_run:
  "max_concurrent_tasks s \<le> 0 \<Longrightarrow> current_tasks s = 0 \<Longrightarrow> threads s = [] \<Longrightarrow>
   threads (run es s) = [] \<and> queue (run es s) = queue s @ submitted es"
proof (induction es arbitrary: s)
  case Nil
  then show ?case by simp
next
  case (Cons e es)
  from idle_step [OF Cons.prems, of e] Cons.IH [of "step e s"]
  show ?case by (simp add: submitted_Cons [of e es])
qed

lemma step_Started:
  "i < length (threads s) \<Longrightarrow> pc (threads s ! i) = Started \<Longrightarrow>
   pc (threads (run_task_step i s) ! i) = Running \<and>
   current_tasks (run_task_step i s) = current_tasks s + 1"
  by (simp add: run_task_step_def set_thread_def Let_def)

lemma step_Running:
  "i < length (threads s) \<Longrightarrow> pc (threads s ! i) = Running \<Longrightarrow>
   pc (threads (run_task_step i s) ! i) = Finishing \<and>
   current_tasks (run_task_step i s) = current_tasks s \<and>
   max_concurrent_tasks (run_task_step i s) = max_concurrent_tasks s \<and>
   queue (run_task_step i s) = queue s \<and>
   length (threads (run_task_step i s)) = length (threads s)"
  by (simp add: run_task_step_def set_thread_def call_body_def log_line_def Let_def
      split: outcome.splits option.splits)

lemma step_Running_Raises:
  "i < length (threads s) \<Longrightarrow> pc (threads s ! i) = Running \<Longrightarrow>
   body (task (threads s ! i)) = Raises e \<Longrightarrow> func_name (task (threads s ! i)) = Some n \<Longrightarrow>
   printed (run_task_step i s) = printed s @ [Error_while_executing_task n e] \<and>
   uncaught (threads (run_task_step i s) ! i) = uncaught (threads s ! i)"
  by (simp add: run_task_step_def set_thread_def call_body_def log_line_def Let_def)

lemma step_Running_Exits:
  "i < length (threads s) \<Longrightarrow> pc (threads s ! i) = Running \<Longrightarrow>
   body (task (threads s ! i)) = Exits e \<Longrightarrow>
   printed (run_task_step i s) = printed s \<and>
   uncaught (threads (run_task_step i s) ! i) = Some (Not_an_Exception e)"
  by (simp add: run_task_step_def set_thread_def call_body_def Let_def)

lemma step_Running_Returns:
  "i < length (threads s) \<Longrightarrow> pc (threads s ! i) = Running \<Longrightarrow>
   body (task (threads s ! i)) = Returns \<Longrightarrow>
   printed (run_task_step i s) = printed s \<and>
   uncaught (threads (run_task_step i s) ! i) = uncaught (threads s ! i)"
  by (simp add: run_task_step_def set_thread_def call_body_def Let_def)

lemma step_Draining:
  assumes "i < length (threads s)" and "pc (threads s ! i) = Draining"
  shows "pc (threads (run_task_step i s) ! i) = Done \<and>
         current_tasks (run_task_step i s) = current_tasks s \<and>
         max_concurrent_tasks (run_task_step i s) = max_concurrent_tasks s \<and>
         (current_tasks s < max_concurrent_tasks s \<longrightarrow>
            (\<forall>j q. queue s = j # q \<longrightarrow>
               queue (run_task_step i s) = q \<and>
               threads (run_task_step i s) =
                 (threads s)[i := (threads s ! i)\<lparr>pc := Done\<rparr>] @ [spawn j])) \<and>
         (\<not> current_tasks s < max_concurrent_tasks s \<or> queue s = [] \<longrightarrow>
            queue (run_task_step i s) = queue s \<and>
            threads (run_task_step i s) = (threads s)[i := (threads s ! i)\<lparr>pc := Done\<rparr>])"
  using assms
  by (auto simp: run_task_step_def set_thread_def check_queue_def execute_task_def Let_def
      list_update_append1 nth_append split: list.splits)

lemma step_Finishing:
  "i < length (threads s) \<Longrightarrow> pc (threads s ! i) = Finishing \<Longrightarrow>
   pc (threads (run_task_step i s) ! i) = Draining \<and>
   current_tasks (run_task_step i s) = current_tasks s - 1 \<and>
   max_concurrent_tasks (run_task_step i s) = max_concurrent_tasks s \<and>
   queue (run_task_step i s) = queue s"
  by (simp add: run_task_step_def set_thread_def task_done_locked_def Let_def)

subsection \<open>No queued job is stranded\<close>

lemma map_task_update:
  "i < length xs \<Longrightarrow> task y = task (xs ! i) \<Longrightarrow> map task (xs[i := y]) = map task xs"
  by (simp add: map_update list_update_same_conv)

lemma held_check_queue: "held (check_queue s) = held s"
  by (simp add: held_def check_queue_def execute_task_def spawn_def split: list.splits)

lemma held_set_thread:
  "i < length (threads s) \<Longrightarrow> task t = task (threads s ! i) \<Longrightarrow>
   held (set_thread i t s) = held s"
  by (simp add: held_def set_thread_def map_task_update)

lemma held_run_task_step: "held (run_task_step i s) = held s"
proof (cases "i < length (threads s)")
  case False
  then show ?thesis by (simp add: run_task_step_def)
next
  case True
  show ?thesis
  proof (cases "pc (threads s ! i)")
    case Draining
    from threads_check_queue [OF True]
    have "held (set_thread i ((threads s ! i)\<lparr>pc := Done\<rparr>) (check_queue s)) = held (check_queue s)"
      by (intro held_set_thread) simp_all
    with True Draining show ?thesis by (simp add: run_task_step_def Let_def held_check_queue)
  next
    case Running
    obtain t' s' where cb: "call_body (threads s ! i) s = (t', s')"
      by (cases "call_body (threads s ! i) s")
    then have "task t' = task (threads s ! i)" and "threads s' = threads s" and "queue s' = queue s"
      by (auto simp: call_body_def log_line_def split: outcome.splits option.splits)
    then have "held (set_thread i t' s') = held s"
      using True by (simp add: held_def set_thread_def map_task_update)
    with True Running cb show ?thesis by (simp add: run_task_step_def Let_def)
  qed (use True in \<open>simp_all add: run_task_step_def Let_def held_def set_thread_def
        map_task_update task_done_locked_def\<close>)
qed

lemma held_step: "held (step e s) = held s + mset (submitted [e])"
proof (cases e)
  case (Add_Task j)
  then show ?thesis
    by (cases "func_name j")
       (simp_all add: add_task_def held_def execute_task_def log_line_def spawn_def)
next
  case (Thread_Step i)
  then show ?thesis by (simp add: held_run_task_step)
qed

lemma held_run: "held (run es s) = held s + mset (submitted es)"
proof (induction es arbitrary: s)
  case Nil
  then show ?case by simp
next
  case (Cons e es)
  then show ?case by (simp add: held_step submitted_Cons [of e es])
qed

lemma held_reachable:
  "mset (map task (threads (run es (fresh k)))) + mset (queue (run es (fresh k))) =
   mset (submitted es)"
  using held_run [of es "fresh k"] by (simp add: held_def fresh_def)

lemma submitted_named: "j \<in> set (submitted es) \<Longrightarrow> func_name j \<noteq> None"
proof (induction es)
  case Nil
  then show ?case by simp
next
  case (Cons e es)
  then show ?case by (cases e) (auto split: if_splits)
qed

lemma reachable_named:
  "(\<forall>t \<in> set (threads (run es (fresh k))). func_name (task t) \<noteq> None) \<and>
   (\<forall>j \<in> set (queue (run es (fresh k))). func_name j \<noteq> None)"
proof -
  let ?s = "run es (fresh k)"
  have "set (map task (threads ?s)) \<union> set (queue ?s) = set (submitted es)"
    using arg_cong [OF held_reachable [of es k], of set_mset] by simp
  then show ?thesis using submitted_named [of _ es] by auto
qed


lemma sum_list_less_witness:
  "sum_list (map f xs) < sum_list (map g xs) \<Longrightarrow> \<exists>i < length xs. f (xs ! i) < (g (xs ! i) :: nat)"
proof (induction xs)
  case Nil
  then show ?case by simp
next
  case (Cons x xs)
  show ?case
  proof (cases "f x < g x")
    case True
    then show ?thesis by (intro exI [of _ 0]) simp
  next
    case False
    with Cons.prems have "sum_list (map f xs) < sum_list (map g xs)" by simp
    from Cons.IH [OF this] obtain i where "i < length xs" and "f (xs ! i) < g (xs ! i)" by blast
    then show ?thesis by (intro exI [of _ "Suc i"]) simp
  qed
qed

lemma busy_thread:
  assumes "accounted s" and "0 < current_tasks s"
  shows "\<exists>i < length (threads s). pc (threads s ! i) = Running \<or> pc (threads s ! i) = Finishing"
proof -
  from assms have "sum_list (map decs (threads s)) < sum_list (map incs (threads s))"
    by (simp add: accounted_def total_increments_def total_decrements_def)
  from sum_list_less_witness [OF this]
  obtain i where i: "i < length (threads s)" and d: "decs (threads s ! i) < incs (threads s ! i)"
    by blast
  from assms(1) i have "counted (threads s ! i)" by (simp add: accounted_def list_all_length)
  with d have "pc (threads s ! i) = Running \<or> pc (threads s ! i) = Finishing"
    by (cases "pc (threads s ! i)") (simp_all add: counted_def)
  with i show ?thesis by blast
qed

lemma unfinished_nth:
  "unfinished s \<longleftrightarrow> (\<exists>i < length (threads s). pc (threads s ! i) \<noteq> Done)"
  by (simp add: unfinished_def list_ex_length)

lemma live_add_task:
  assumes "accounted s" and "0 < max_concurrent_tasks s" and "live s"
  shows "live (step (Add_Task j) s)"
proof (cases "func_name j")
  case None
  with assms(3) show ?thesis by (simp add: add_task_nameless)
next
  case (Some n)
  show ?thesis
  proof (cases "current_tasks s < max_concurrent_tasks s")
    case True
    with Some show ?thesis
      by (simp add: add_task_named live_def unfinished_def execute_task_def spawn_def)
  next
    case False
    with assms(2) have "0 < current_tasks s" by simp
    from busy_thread [OF assms(1) this] have "unfinished s" by (auto simp: unfinished_nth)
    with Some False show ?thesis
      by (simp add: add_task_named live_def unfinished_def log_line_def)
  qed
qed

lemma live_run_task_step:
  assumes "accounted s" and "0 < max_concurrent_tasks s" and "live s"
  shows "live (run_task_step i s)"
proof (cases "i < length (threads s)")
  case False
  with assms(3) show ?thesis by (simp add: run_task_step_def)
next
  case True
  note adv = run_task_step_advances [OF True]
  show ?thesis
  proof (cases "pc (threads s ! i)")
    case Done
    with True assms(3) show ?thesis by (simp add: run_task_step_def Let_def)
  next
    case Draining
    note d = step_Draining [OF True Draining]
    show ?thesis
    proof (cases "queue s")
      case Nil
      with d show ?thesis by (simp add: live_def)
    next
      case (Cons j q)
      show ?thesis
      proof (cases "current_tasks s < max_concurrent_tasks s")
        case True
        with d Cons have "threads (run_task_step i s) =
            (threads s)[i := (threads s ! i)\<lparr>pc := Done\<rparr>] @ [spawn j]" by simp
        then show ?thesis by (simp add: live_def unfinished_def spawn_def)
      next
        case False
        with assms(2) have "0 < current_tasks s" by simp
        from busy_thread [OF assms(1) this] obtain k where k: "k < length (threads s)"
          and b: "pc (threads s ! k) = Running \<or> pc (threads s ! k) = Finishing" by blast
        from b Draining have ne: "k \<noteq> i" by auto
        from d False have t: "threads (run_task_step i s) =
            (threads s)[i := (threads s ! i)\<lparr>pc := Done\<rparr>]" by simp
        from k ne b have "k < length (threads (run_task_step i s)) \<and>
            pc (threads (run_task_step i s) ! k) \<noteq> Done" unfolding t by auto
        then show ?thesis unfolding live_def unfinished_nth by blast
      qed
    qed
  qed (use adv in \<open>auto simp: live_def unfinished_nth\<close>)
qed

lemma live_step:
  "accounted s \<Longrightarrow> 0 < max_concurrent_tasks s \<Longrightarrow> live s \<Longrightarrow> live (step e s)"
proof (cases e)
  case (Add_Task j)
  assume "accounted s" "0 < max_concurrent_tasks s" "live s"
  from live_add_task [OF this, of j] Add_Task show ?thesis by simp
next
  case (Thread_Step i)
  assume "accounted s" "0 < max_concurrent_tasks s" "live s"
  from live_run_task_step [OF this, of i] Thread_Step show ?thesis by simp
qed

lemma live_run:
  "accounted s \<Longrightarrow> 0 < max_concurrent_tasks s \<Longrightarrow> live s \<Longrightarrow> live (run es s)"
proof (induction es arbitrary: s)
  case Nil
  then show ?case by simp
next
  case (Cons e es)
  from Cons.prems have "accounted (step e s)" and "0 < max_concurrent_tasks (step e s)"
    and "live (step e s)" by (simp_all add: accounted_step max_step live_step)
  from Cons.IH [OF this] show ?case by simp
qed

lemma live_reachable: "0 < k \<Longrightarrow> live (run es (fresh k))"
  by (rule live_run [OF accounted_fresh]) (simp_all add: fresh_def live_def)


lemma step_shape:
  assumes "i < length (threads s)" and "pc (threads s ! i) \<noteq> Done"
    and "pc (threads s ! i) \<noteq> Draining"
  shows "\<exists>t. threads (run_task_step i s) = (threads s)[i := t] \<and>
             pc t = next_stage (pc (threads s ! i)) \<and> queue (run_task_step i s) = queue s"
  using assms
  by (cases "pc (threads s ! i)")
     (auto simp: run_task_step_def set_thread_def call_body_def log_line_def
        task_done_locked_def Let_def split: outcome.splits option.splits)

lemma steps_left_next: "p \<noteq> Done \<Longrightarrow> Suc (steps_left (next_stage p)) = steps_left p"
  by (cases p) simp_all

lemma remaining_step:
  assumes "i < length (threads s)" and "pc (threads s ! i) \<noteq> Done"
  shows "Suc (remaining (run_task_step i s)) = remaining s"
proof (cases "pc (threads s ! i) = Draining")
  case False
  from step_shape [OF assms False] obtain t
    where t: "threads (run_task_step i s) = (threads s)[i := t]"
      and p: "pc t = next_stage (pc (threads s ! i))"
      and q: "queue (run_task_step i s) = queue s" by blast
  from sum_list_map_update [OF assms(1), of "\<lambda>t. steps_left (pc t)" t]
    steps_left_next [OF assms(2)] p
  show ?thesis by (simp add: remaining_def t q)
next
  case True
  note d = step_Draining [OF assms(1) True]
  let ?u = "(threads s ! i)\<lparr>pc := Done\<rparr>"
  from sum_list_map_update [OF assms(1), of "\<lambda>t. steps_left (pc t)" ?u] True
  have u: "Suc (sum_list (map (\<lambda>t. steps_left (pc t)) ((threads s)[i := ?u]))) =
           sum_list (map (\<lambda>t. steps_left (pc t)) (threads s))" by simp
  show ?thesis
  proof (cases "current_tasks s < max_concurrent_tasks s \<and> queue s \<noteq> []")
    case True
    then obtain j q where jq: "queue s = j # q" by (cases "queue s") auto
    with d True have "queue (run_task_step i s) = q"
      and "threads (run_task_step i s) = (threads s)[i := ?u] @ [spawn j]" by simp_all
    with u jq show ?thesis by (simp add: remaining_def spawn_def)
  next
    case False
    with d have "queue (run_task_step i s) = queue s"
      and "threads (run_task_step i s) = (threads s)[i := ?u]" by auto
    with u show ?thesis by (simp add: remaining_def)
  qed
qed

lemma steps_left_zero: "steps_left p = 0 \<longleftrightarrow> p = Done"
  by (cases p) simp_all

lemma submitted_append: "submitted (xs @ ys) = submitted xs @ submitted ys"
proof (induction xs)
  case Nil
  then show ?case by simp
next
  case (Cons e xs)
  then show ?case by (cases e) simp_all
qed

lemma submitted_thread_steps: "submitted (map Thread_Step js) = []"
  by (induction js) simp_all

lemma drains:
  "accounted s \<Longrightarrow> 0 < max_concurrent_tasks s \<Longrightarrow> live s \<Longrightarrow>
   \<exists>is. length is = remaining s \<and> queue (run (map Thread_Step is) s) = [] \<and>
        \<not> unfinished (run (map Thread_Step is) s)"
proof (induction "remaining s" arbitrary: s)
  case 0
  then have "\<forall>t \<in> set (threads s). steps_left (pc t) = 0"
    by (simp add: remaining_def)
  then have "\<not> unfinished s"
    by (simp add: unfinished_def list_ex_iff steps_left_zero)
  with 0 have "queue s = []" by (simp add: live_def)
  with \<open>\<not> unfinished s\<close> 0 show ?case by (intro exI [of _ "[]"]) simp
next
  case (Suc n)
  have "unfinished s"
  proof (rule ccontr)
    assume u: "\<not> unfinished s"
    with Suc.prems have "queue s = []" by (simp add: live_def)
    moreover from u have "\<forall>t \<in> set (threads s). steps_left (pc t) = 0"
      by (simp add: unfinished_def list_ex_iff)
    then have "sum_list (map (\<lambda>t. steps_left (pc t)) (threads s)) = 0"
      by simp
    ultimately have "remaining s = 0" by (simp add: remaining_def)
    with Suc.hyps(2) show False by simp
  qed
  then obtain i where i: "i < length (threads s)" and p: "pc (threads s ! i) \<noteq> Done"
    by (auto simp: unfinished_nth)
  let ?s = "run_task_step i s"
  from remaining_step [OF i p] Suc.hyps(2) have r: "n = remaining ?s" by simp
  have "accounted ?s" and "0 < max_concurrent_tasks ?s" and "live ?s"
    using Suc.prems accounted_step [of s "Thread_Step i"] max_step [of "Thread_Step i" s]
      live_step [of s "Thread_Step i"] by simp_all
  from Suc.hyps(1) [OF r this] obtain js where
    js: "length js = remaining ?s" "queue (run (map Thread_Step js) ?s) = []"
      "\<not> unfinished (run (map Thread_Step js) ?s)" by blast
  with r Suc.hyps(2) show ?case by (intro exI [of _ "i # js"]) simp
qed

lemma reachable_drains:
  assumes "0 < k"
  shows "\<exists>is. queue (run (es @ map Thread_Step is) (fresh k)) = [] \<and>
              (\<forall>t \<in> set (threads (run (es @ map Thread_Step is) (fresh k))). pc t = Done) \<and>
              mset (map task (threads (run (es @ map Thread_Step is) (fresh k)))) =
                mset (submitted es)"
proof -
  have "accounted (run es (fresh k))" by (rule accounted_reachable)
  moreover have "0 < max_concurrent_tasks (run es (fresh k))"
    using assms by (simp add: max_run fresh_def)
  moreover have "live (run es (fresh k))" by (rule live_reachable [OF assms])
  ultimately obtain js where q: "queue (run (map Thread_Step js) (run es (fresh k))) = []"
    and u: "\<not> unfinished (run (map Thread_Step js) (run es (fresh k)))"
    using drains by blast
  have sub: "submitted (es @ map Thread_Step js) = submitted es"
    by (simp add: submitted_append submitted_thread_steps)
  from held_reachable [of "es @ map Thread_Step js" k] q
  have "mset (map task (threads (run (es @ map Thread_Step js) (fresh k)))) = mset (submitted es)"
    by (simp add: run_append sub)
  with q u show ?thesis
    by (intro exI [of _ js]) (auto simp: run_append unfinished_def list_ex_iff)
qed


lemma three_queued_state:
  "gets (run three_queued (fresh 1)) = [job_b, job_c] \<and>
   puts (run three_queued (fresh 1)) = [job_b, job_c] \<and>
   queue (run three_queued (fresh 1)) = [] \<and>
   map task (threads (run three_queued (fresh 1))) = [job_a, job_b, job_c]"
  by (simp add: three_queued_def model_defs job_a_def job_b_def job_c_def)

lemma decremented_not_drained_state:
  "run decremented_not_drained (fresh 1) =
     \<lparr>max_concurrent_tasks = 1, current_tasks = 0, queue = [job_b],
      threads = [\<lparr>task = job_a, pc = Draining, uncaught = None, incs = 1, decs = 1\<rparr>],
      printed = [Executing_task ''a'' 0, Enqueuing_task ''b'' 1],
      puts = [job_b], gets = []\<rparr>"
  by (simp add: decremented_not_drained_def model_defs job_a_def job_b_def)

lemma two_raising_done_state:
  "run two_raising_done (fresh 2) =
     \<lparr>max_concurrent_tasks = 2, current_tasks = 0, queue = [],
      threads = [\<lparr>task = job_x, pc = Done, uncaught = None, incs = 1, decs = 1\<rparr>,
                 \<lparr>task = job_y, pc = Done, uncaught = None, incs = 1, decs = 1\<rparr>],
      printed = [Executing_task ''x'' 0, Executing_task ''y'' 0,
                 Error_while_executing_task ''x'' ''boom'',
                 Error_while_executing_task ''y'' ''bang''],
      puts = [], gets = []\<rparr>"
  by (simp add: two_raising_done_def model_defs job_x_def job_y_def)

lemma raising_dispatched_state:
  "run raising_dispatched (fresh 2) =
     \<lparr>max_concurrent_tasks = 2, current_tasks = 0, queue = [],
      threads = [\<lparr>task = job_x, pc = Started, uncaught = None, incs = 0, decs = 0\<rparr>],
      printed = [Executing_task ''x'' 0], puts = [], gets = []\<rparr>"
  by (simp add: raising_dispatched_def model_defs job_x_def)

lemma raising_running_state:
  "run raising_running (fresh 2) =
     \<lparr>max_concurrent_tasks = 2, current_tasks = 1, queue = [],
      threads = [\<lparr>task = job_x, pc = Running, uncaught = None, incs = 1, decs = 0\<rparr>],
      printed = [Executing_task ''x'' 0], puts = [], gets = []\<rparr>"
  by (simp add: raising_running_def model_defs job_x_def)

lemma raising_finishing_state:
  "run raising_finishing (fresh 2) =
     \<lparr>max_concurrent_tasks = 2, current_tasks = 1, queue = [],
      threads = [\<lparr>task = job_x, pc = Finishing, uncaught = None, incs = 1, decs = 0\<rparr>],
      printed = [Executing_task ''x'' 0, Error_while_executing_task ''x'' ''boom''],
      puts = [], gets = []\<rparr>"
  by (simp add: raising_finishing_def model_defs job_x_def)

lemma queued_behind_raising_state:
  "run queued_behind_raising (fresh 1) =
     \<lparr>max_concurrent_tasks = 1, current_tasks = 1, queue = [job_b],
      threads = [\<lparr>task = job_x, pc = Running, uncaught = None, incs = 1, decs = 0\<rparr>],
      printed = [Executing_task ''x'' 0, Enqueuing_task ''b'' 1],
      puts = [job_b], gets = []\<rparr>"
  by (simp add: queued_behind_raising_def model_defs job_x_def job_b_def)

lemma raising_draining_state:
  "run raising_draining (fresh 1) =
     \<lparr>max_concurrent_tasks = 1, current_tasks = 0, queue = [job_b],
      threads = [\<lparr>task = job_x, pc = Draining, uncaught = None, incs = 1, decs = 1\<rparr>],
      printed = [Executing_task ''x'' 0, Enqueuing_task ''b'' 1,
                 Error_while_executing_task ''x'' ''boom''],
      puts = [job_b], gets = []\<rparr>"
  by (simp add: raising_draining_def model_defs job_x_def job_b_def)

lemma exiting_running_state:
  "run exiting_running (fresh 1) =
     \<lparr>max_concurrent_tasks = 1, current_tasks = 1, queue = [],
      threads = [\<lparr>task = job_z, pc = Running, uncaught = None, incs = 1, decs = 0\<rparr>],
      printed = [Executing_task ''z'' 0], puts = [], gets = []\<rparr>"
  by (simp add: exiting_running_def model_defs job_z_def)

lemma exiting_finishing_state:
  "run exiting_finishing (fresh 1) =
     \<lparr>max_concurrent_tasks = 1, current_tasks = 1, queue = [],
      threads = [\<lparr>task = job_z, pc = Finishing,
                  uncaught = Some (Not_an_Exception ''SystemExit''), incs = 1, decs = 0\<rparr>],
      printed = [Executing_task ''z'' 0], puts = [], gets = []\<rparr>"
  by (simp add: exiting_finishing_def model_defs job_z_def)

section \<open>Method resolution\<close>

lemma resolve_base:
  "m \<in> set base_methods \<Longrightarrow> resolve c m = Some TaskManager"
  by (cases c) (auto simp: resolve_def base_methods_def)

lemma self_calls_base:
  "m \<in> set base_methods \<Longrightarrow> m2 \<in> set (self_calls TaskManager m) \<Longrightarrow> m2 \<in> set base_methods"
  by (cases m) (auto simp: base_methods_def)

lemma runs_base:
  "runs c m b \<Longrightarrow> m \<in> set base_methods \<Longrightarrow> fst b = TaskManager \<and> snd b \<in> set base_methods"
proof (induction rule: runs.induct)
  case (entry d)
  then show ?case by (simp add: resolve_base)
next
  case (call d m1 m2 d2)
  then have "d = TaskManager" and "m1 \<in> set base_methods" by simp_all
  with call.hyps(2) have "m2 \<in> set base_methods" by (simp add: self_calls_base)
  with call.hyps(3) show ?case by (simp add: resolve_base)
qed

lemma runs_same:
  assumes "m \<in> set base_methods"
  shows "runs InMemoryTaskManager m b \<longleftrightarrow> runs TaskManager m b"
proof
  assume "runs InMemoryTaskManager m b"
  then show "runs TaskManager m b"
  proof (induction rule: runs.induct)
    case (entry d)
    then show ?case using assms by (simp add: resolve_base runs.entry)
  next
    case (call d m1 m2 d2)
    from runs_base [OF call.hyps(1) assms] have "m1 \<in> set base_methods" "d = TaskManager" by simp_all
    with call.hyps(2) have "m2 \<in> set base_methods" by (simp add: self_calls_base)
    then have "resolve TaskManager m2 = Some d2" using call.hyps(3) by (simp add: resolve_base)
    with call.IH call.hyps(2) show ?case by (rule runs.call)
  qed
next
  assume "runs TaskManager m b"
  then show "runs InMemoryTaskManager m b"
  proof (induction rule: runs.induct)
    case (entry d)
    then show ?case using assms by (simp add: resolve_base runs.entry)
  next
    case (call d m1 m2 d2)
    from runs_base [OF call.hyps(1) assms] have "m1 \<in> set base_methods" "d = TaskManager" by simp_all
    with call.hyps(2) have "m2 \<in> set base_methods" by (simp add: self_calls_base)
    then have "resolve InMemoryTaskManager m2 = Some d2" using call.hyps(3) by (simp add: resolve_base)
    with call.IH call.hyps(2) show ?case by (rule runs.call)
  qed
qed

lemma inherits_all_base: "m \<in> set base_methods \<Longrightarrow> inherits_all c m"
  using runs_base by (simp add: inherits_all_def)

lemma step_as_step: "step_as c e s = Some (step e s)"
  by (cases e) (simp_all add: step_as_def inherits_all_base base_methods_def)

lemma run_as_run: "run_as c es s = Some (run es s)"
  by (induction es arbitrary: s) (simp_all add: step_as_step)

section \<open>The error string of the provider call\<close>

lemma starts_with_append: "starts_with p (p @ s)"
  by (simp add: starts_with_def)

lemma contains_prefix: "p \<noteq> [] \<Longrightarrow> contains p (p @ s)"
  by (cases p) (simp_all add: starts_with_def)

lemma failure_has_marker:
  "try_body st r = Inl e \<Longrightarrow>
   generate_response st r = ''Error: '' @ e \<and> contains ''Error: '' (generate_response st r)"
  using contains_prefix [of "''Error: ''" e] by (simp add: generate_response_def)

lemma loop_returns_response:
  "contains ''Error: '' (generate_response st (world i)) \<Longrightarrow>
   terms_loop loads st world (Suc n) i search_terms =
     Inr (PStr (generate_response st (world i)))"
  by (simp add: Let_def)

lemma loop_failure:
  assumes "try_body st (world i) = Inl e"
  shows "terms_loop loads st world (Suc n) i search_terms = Inr (PStr (''Error: '' @ e))"
proof -
  from failure_has_marker [OF assms]
  have r: "generate_response st (world i) = ''Error: '' @ e"
    and c: "contains ''Error: '' (generate_response st (world i))" by blast+
  show ?thesis unfolding loop_returns_response [of st world i, OF c] r ..
qed

section \<open>The claims\<close>

subsection \<open>The limit on running jobs\<close>

text \<open>
  The counter never falls below zero: it is the number of increments minus the number of
  decrements, and no thread decrements before it has incremented.
\<close>

lemma current_tasks_nonneg: "0 \<le> current_tasks (run es (fresh k))"
proof -
  have c: "list_all counted (threads (run es (fresh k)))"
    and v: "current_tasks (run es (fresh k)) =
            int (total_increments (run es (fresh k))) - int (total_decrements (run es (fresh k)))"
    using accounted_reachable [of es k] by (simp_all add: accounted_def)
  have "total_decrements (run es (fresh k)) \<le> total_increments (run es (fresh k))"
    unfolding total_decrements_def total_increments_def
    by (rule sum_list_map_le) (rule list_all_imp [OF c], drule counted_bounds, simp)
  with v show ?thesis by simp
qed

text \<open>
  C1: the counter is claimed to stay at or below the limit, with the test for capacity and
  the increment in one atomic step. In the code \<^verbatim>\<open>add_task\<close> tests the counter and starts
  the thread, and the increment is the first locked block of \<^verbatim>\<open>run_task\<close> in the new
  thread. With limit 1, two submissions that both pass the test before either thread has
  taken the lock leave two jobs running and the counter at 2.
\<close>

theorem over_admission:
  "max_concurrent_tasks (run both_admitted (fresh 1)) = 1 \<and>
   current_tasks (run both_admitted (fresh 1)) = 2 \<and>
   map pc (threads (run both_admitted (fresh 1))) = [Running, Running] \<and>
   map task (threads (run both_admitted (fresh 1))) = [job_a, job_b] \<and>
   queue (run both_admitted (fresh 1)) = []"
  by (simp add: both_admitted_def model_defs job_a_def job_b_def)

subsection \<open>A body that raises\<close>

text \<open>
  C2 as stated: whatever the body raises is caught and logged by the wrapper. The handler
  is \<^verbatim>\<open>except Exception\<close>: a body that raises \<^verbatim>\<open>SystemExit\<close> passes it by. With limit 1
  and the single job \<open>job_z\<close>, after the body has run nothing but the line of \<^verbatim>\<open>add_task\<close>
  is printed and the exception is on its way out of \<^verbatim>\<open>run_task\<close>.
\<close>

theorem non_exception_not_caught:
  "body job_z = Exits ''SystemExit'' \<and>
   pc (threads (run exiting_finishing (fresh 1)) ! 0) = Finishing \<and>
   uncaught (threads (run exiting_finishing (fresh 1)) ! 0) =
     Some (Not_an_Exception ''SystemExit'') \<and>
   printed (run exiting_finishing (fresh 1)) = [Executing_task ''z'' 0]"
  by (simp add: exiting_finishing_state) (simp add: job_z_def)

text \<open>
  C2 as amended: whatever the body of a dispatched job does, its thread goes on to
  \<^verbatim>\<open>task_done\<close> and frees its slot. From \<open>Started\<close> the thread increments the counter;
  from \<open>Running\<close> it reaches the \<^verbatim>\<open>finally\<close> clause with the counter, the limit and the
  queue as they were; a body that raised an \<^verbatim>\<open>Exception\<close> has its error printed and
  nothing left to propagate, a body that raised anything else has nothing printed and its
  exception pending; from \<open>Finishing\<close> the counter is decremented; from \<open>Draining\<close> the
  thread is over, and with capacity the head of the queue is removed and its thread started.
  Along every schedule every job held has a name, so the handler can print. With a positive
  limit no queued job is stranded: while the queue is not empty some thread is not over;
  from every reachable state the threads alone reach a state where the queue is empty, all
  threads are over and the jobs started are the jobs submitted; and once all threads are
  over the counter is 0 and the next \<^verbatim>\<open>add_task\<close> of a named callable starts it at once.
\<close>

theorem completion_frees_slot:
  "(i < length (threads s) \<and> pc (threads s ! i) = Started \<longrightarrow>
      pc (threads (run_task_step i s) ! i) = Running \<and>
      current_tasks (run_task_step i s) = current_tasks s + 1) \<and>
   (i < length (threads s) \<and> pc (threads s ! i) = Running \<longrightarrow>
      pc (threads (run_task_step i s) ! i) = Finishing \<and>
      current_tasks (run_task_step i s) = current_tasks s \<and>
      max_concurrent_tasks (run_task_step i s) = max_concurrent_tasks s \<and>
      queue (run_task_step i s) = queue s \<and>
      length (threads (run_task_step i s)) = length (threads s) \<and>
      (\<forall>e n. body (task (threads s ! i)) = Raises e \<and>
             func_name (task (threads s ! i)) = Some n \<longrightarrow>
         printed (run_task_step i s) = printed s @ [Error_while_executing_task n e] \<and>
         uncaught (threads (run_task_step i s) ! i) = uncaught (threads s ! i)) \<and>
      (\<forall>e. body (task (threads s ! i)) = Exits e \<longrightarrow>
         printed (run_task_step i s) = printed s \<and>
         uncaught (threads (run_task_step i s) ! i) = Some (Not_an_Exception e))) \<and>
   (i < length (threads s) \<and> pc (threads s ! i) = Finishing \<longrightarrow>
      pc (threads (run_task_step i s) ! i) = Draining \<and>
      current_tasks (run_task_step i s) = current_tasks s - 1 \<and>
      max_concurrent_tasks (run_task_step i s) = max_concurrent_tasks s \<and>
      queue (run_task_step i s) = queue s) \<and>
   (i < length (threads s) \<and> pc (threads s ! i) = Draining \<longrightarrow>
      pc (threads (run_task_step i s) ! i) = Done \<and>
      current_tasks (run_task_step i s) = current_tasks s \<and>
      max_concurrent_tasks (run_task_step i s) = max_concurrent_tasks s \<and>
      (current_tasks s < max_concurrent_tasks s \<longrightarrow>
         (\<forall>j q. queue s = j # q \<longrightarrow>
            queue (run_task_step i s) = q \<and>
            threads (run_task_step i s) =
              (threads s)[i := (threads s ! i)\<lparr>pc := Done\<rparr>] @ [spawn j]))) \<and>
   (\<forall>t \<in> set (threads (run es (fresh k))). func_name (task t) \<noteq> None) \<and>
   (0 < k \<and> queue (run es (fresh k)) \<noteq> [] \<longrightarrow>
      (\<exists>t \<in> set (threads (run es (fresh k))). pc t \<noteq> Done)) \<and>
   (0 < k \<longrightarrow>
      (\<exists>is. queue (run (es @ map Thread_Step is) (fresh k)) = [] \<and>
            (\<forall>t \<in> set (threads (run (es @ map Thread_Step is) (fresh k))). pc t = Done) \<and>
            mset (map task (threads (run (es @ map Thread_Step is) (fresh k)))) =
              mset (submitted es))) \<and>
   (0 < k \<and> (\<forall>t \<in> set (threads (run es (fresh k))). pc t = Done) \<and>
    func_name j \<noteq> None \<longrightarrow>
      current_tasks (run es (fresh k)) = 0 \<and>
      add_task j (run es (fresh k)) = Inr (step (Add_Task j) (run es (fresh k))) \<and>
      threads (step (Add_Task j) (run es (fresh k))) =
        threads (run es (fresh k)) @ [spawn j])"
proof -
  have m: "max_concurrent_tasks (run es (fresh k)) = k"
    by (simp add: max_run fresh_def)
  have q: "0 < k \<and> (\<forall>t \<in> set (threads (run es (fresh k))). pc t = Done) \<and>
    func_name j \<noteq> None \<longrightarrow>
      current_tasks (run es (fresh k)) = 0 \<and>
      add_task j (run es (fresh k)) = Inr (step (Add_Task j) (run es (fresh k))) \<and>
      threads (step (Add_Task j) (run es (fresh k))) =
        threads (run es (fresh k)) @ [spawn j]"
    using quiescent_idle [of es k] m
    by (auto simp: add_task_def execute_task_def log_line_def)
  have n: "\<forall>t \<in> set (threads (run es (fresh k))). func_name (task t) \<noteq> None"
    using reachable_named [of es k] by blast
  have l: "0 < k \<and> queue (run es (fresh k)) \<noteq> [] \<longrightarrow>
      (\<exists>t \<in> set (threads (run es (fresh k))). pc t \<noteq> Done)"
    using live_reachable [of k es] by (auto simp: live_def unfinished_def list_ex_iff)
  have d: "0 < k \<longrightarrow>
      (\<exists>is. queue (run (es @ map Thread_Step is) (fresh k)) = [] \<and>
            (\<forall>t \<in> set (threads (run (es @ map Thread_Step is) (fresh k))). pc t = Done) \<and>
            mset (map task (threads (run (es @ map Thread_Step is) (fresh k)))) =
              mset (submitted es))"
    using reachable_drains [of k es] by blast
  have r: "i < length (threads s) \<and> pc (threads s ! i) = Running \<longrightarrow>
      pc (threads (run_task_step i s) ! i) = Finishing \<and>
      current_tasks (run_task_step i s) = current_tasks s \<and>
      max_concurrent_tasks (run_task_step i s) = max_concurrent_tasks s \<and>
      queue (run_task_step i s) = queue s \<and>
      length (threads (run_task_step i s)) = length (threads s) \<and>
      (\<forall>e n. body (task (threads s ! i)) = Raises e \<and>
             func_name (task (threads s ! i)) = Some n \<longrightarrow>
         printed (run_task_step i s) = printed s @ [Error_while_executing_task n e] \<and>
         uncaught (threads (run_task_step i s) ! i) = uncaught (threads s ! i)) \<and>
      (\<forall>e. body (task (threads s ! i)) = Exits e \<longrightarrow>
         printed (run_task_step i s) = printed s \<and>
         uncaught (threads (run_task_step i s) ! i) = Some (Not_an_Exception e))"
    using step_Running [of i s] step_Running_Raises [of i s] step_Running_Exits [of i s]
    by blast
  have g: "i < length (threads s) \<and> pc (threads s ! i) = Draining \<longrightarrow>
      pc (threads (run_task_step i s) ! i) = Done \<and>
      current_tasks (run_task_step i s) = current_tasks s \<and>
      max_concurrent_tasks (run_task_step i s) = max_concurrent_tasks s \<and>
      (current_tasks s < max_concurrent_tasks s \<longrightarrow>
         (\<forall>j q. queue s = j # q \<longrightarrow>
            queue (run_task_step i s) = q \<and>
            threads (run_task_step i s) =
              (threads s)[i := (threads s ! i)\<lparr>pc := Done\<rparr>] @ [spawn j]))"
    using step_Draining [of i s] by blast
  from step_Started [of i s] r step_Finishing [of i s] g n l d q
  show ?thesis by blast
qed

theorem completion_frees_slot_witness:
  "pc (threads (run raising_dispatched (fresh 2)) ! 0) = Started \<and>
   pc (threads (run_task_step 0 (run raising_dispatched (fresh 2))) ! 0) = Running \<and>
   current_tasks (run_task_step 0 (run raising_dispatched (fresh 2))) = 1 \<and>
   pc (threads (run raising_running (fresh 2)) ! 0) = Running \<and>
   body (task (threads (run raising_running (fresh 2)) ! 0)) = Raises ''boom'' \<and>
   pc (threads (run_task_step 0 (run raising_running (fresh 2))) ! 0) = Finishing \<and>
   current_tasks (run_task_step 0 (run raising_running (fresh 2))) = 1 \<and>
   printed (run_task_step 0 (run raising_running (fresh 2))) =
     [Executing_task ''x'' 0, Error_while_executing_task ''x'' ''boom''] \<and>
   body (task (threads (run exiting_running (fresh 1)) ! 0)) = Exits ''SystemExit'' \<and>
   pc (threads (run_task_step 0 (run exiting_running (fresh 1))) ! 0) = Finishing \<and>
   printed (run_task_step 0 (run exiting_running (fresh 1))) = [Executing_task ''z'' 0] \<and>
   uncaught (threads (run_task_step 0 (run exiting_running (fresh 1))) ! 0) =
     Some (Not_an_Exception ''SystemExit'') \<and>
   pc (threads (run raising_finishing (fresh 2)) ! 0) = Finishing \<and>
   pc (threads (run_task_step 0 (run raising_finishing (fresh 2))) ! 0) = Draining \<and>
   current_tasks (run_task_step 0 (run raising_finishing (fresh 2))) = 0 \<and>
   pc (threads (run raising_draining (fresh 1)) ! 0) = Draining \<and>
   queue (run raising_draining (fresh 1)) = [job_b] \<and>
   pc (threads (run_task_step 0 (run raising_draining (fresh 1))) ! 0) = Done \<and>
   queue (run_task_step 0 (run raising_draining (fresh 1))) = [] \<and>
   map task (threads (run_task_step 0 (run raising_draining (fresh 1)))) = [job_x, job_b] \<and>
   queue (run queued_behind_raising (fresh 1)) = [job_b] \<and>
   pc (threads (run queued_behind_raising (fresh 1)) ! 0) \<noteq> Done \<and>
   (\<exists>is. queue (run (queued_behind_raising @ map Thread_Step is) (fresh 1)) = [] \<and>
         mset (map task (threads (run (queued_behind_raising @ map Thread_Step is) (fresh 1)))) =
           mset [job_x, job_b]) \<and>
   pc (threads (run two_raising_done (fresh 2)) ! 0) = Done \<and>
   pc (threads (run two_raising_done (fresh 2)) ! 1) = Done \<and>
   length (threads (run two_raising_done (fresh 2))) = 2 \<and>
   current_tasks (run two_raising_done (fresh 2)) = 0 \<and>
   map task (threads (step (Add_Task job_c) (run two_raising_done (fresh 2)))) =
     [job_x, job_y, job_c]"
proof -
  note t = completion_frees_slot [where i = 0 and j = job_c]
  have a: "pc (threads (run raising_dispatched (fresh 2)) ! 0) = Started \<and>
      pc (threads (run_task_step 0 (run raising_dispatched (fresh 2))) ! 0) = Running \<and>
      current_tasks (run_task_step 0 (run raising_dispatched (fresh 2))) = 1"
    using t [where s = "run raising_dispatched (fresh 2)" and k = 2 and es = two_raising_done]
    by (simp add: raising_dispatched_state)
  have b: "pc (threads (run raising_running (fresh 2)) ! 0) = Running \<and>
      body (task (threads (run raising_running (fresh 2)) ! 0)) = Raises ''boom'' \<and>
      pc (threads (run_task_step 0 (run raising_running (fresh 2))) ! 0) = Finishing \<and>
      current_tasks (run_task_step 0 (run raising_running (fresh 2))) = 1 \<and>
      printed (run_task_step 0 (run raising_running (fresh 2))) =
        [Executing_task ''x'' 0, Error_while_executing_task ''x'' ''boom'']"
    using t [where s = "run raising_running (fresh 2)" and k = 2 and es = two_raising_done]
    by (simp add: raising_running_state job_x_def)
  have c: "body (task (threads (run exiting_running (fresh 1)) ! 0)) = Exits ''SystemExit'' \<and>
      pc (threads (run_task_step 0 (run exiting_running (fresh 1))) ! 0) = Finishing \<and>
      printed (run_task_step 0 (run exiting_running (fresh 1))) = [Executing_task ''z'' 0] \<and>
      uncaught (threads (run_task_step 0 (run exiting_running (fresh 1))) ! 0) =
        Some (Not_an_Exception ''SystemExit'')"
    using t [where s = "run exiting_running (fresh 1)" and k = 2 and es = two_raising_done]
    by (simp add: exiting_running_state job_z_def)
  have d: "pc (threads (run raising_finishing (fresh 2)) ! 0) = Finishing \<and>
      pc (threads (run_task_step 0 (run raising_finishing (fresh 2))) ! 0) = Draining \<and>
      current_tasks (run_task_step 0 (run raising_finishing (fresh 2))) = 0"
    using t [where s = "run raising_finishing (fresh 2)" and k = 2 and es = two_raising_done]
    by (simp add: raising_finishing_state)
  have e: "pc (threads (run raising_draining (fresh 1)) ! 0) = Draining \<and>
      queue (run raising_draining (fresh 1)) = [job_b] \<and>
      pc (threads (run_task_step 0 (run raising_draining (fresh 1))) ! 0) = Done \<and>
      queue (run_task_step 0 (run raising_draining (fresh 1))) = [] \<and>
      map task (threads (run_task_step 0 (run raising_draining (fresh 1)))) = [job_x, job_b]"
    using t [where s = "run raising_draining (fresh 1)" and k = 2 and es = two_raising_done]
    by (simp add: raising_draining_state spawn_def)
  have f: "queue (run queued_behind_raising (fresh 1)) = [job_b] \<and>
      pc (threads (run queued_behind_raising (fresh 1)) ! 0) \<noteq> Done \<and>
      (\<exists>is. queue (run (queued_behind_raising @ map Thread_Step is) (fresh 1)) = [] \<and>
         mset (map task (threads (run (queued_behind_raising @ map Thread_Step is) (fresh 1)))) =
           mset [job_x, job_b])"
  proof -
    have sub: "submitted queued_behind_raising = [job_x, job_b]"
      by (simp add: queued_behind_raising_def job_x_def job_b_def)
    from t [where s = "fresh 1" and k = 1 and es = queued_behind_raising]
    have "\<exists>is. queue (run (queued_behind_raising @ map Thread_Step is) (fresh 1)) = [] \<and>
         mset (map task (threads (run (queued_behind_raising @ map Thread_Step is) (fresh 1)))) =
           mset (submitted queued_behind_raising)"
      by auto
    then show ?thesis unfolding sub by (simp add: queued_behind_raising_state)
  qed
  have g: "pc (threads (run two_raising_done (fresh 2)) ! 0) = Done \<and>
      pc (threads (run two_raising_done (fresh 2)) ! 1) = Done \<and>
      length (threads (run two_raising_done (fresh 2))) = 2 \<and>
      current_tasks (run two_raising_done (fresh 2)) = 0 \<and>
      map task (threads (step (Add_Task job_c) (run two_raising_done (fresh 2)))) =
        [job_x, job_y, job_c]"
  proof -
    have n: "func_name job_c \<noteq> None" by (simp add: job_c_def)
    have h: "\<forall>t \<in> set (threads (run two_raising_done (fresh 2))). pc t = Done"
      by (simp add: two_raising_done_state)
    from n h t [where s = "fresh 1" and k = 2 and es = two_raising_done]
    have "threads (step (Add_Task job_c) (run two_raising_done (fresh 2))) =
        threads (run two_raising_done (fresh 2)) @ [spawn job_c]" by simp
    then show ?thesis by (simp add: two_raising_done_state spawn_def)
  qed
  from a b c d e f g show ?thesis by blast
qed

subsection \<open>Decrement and drain\<close>

text \<open>
  C3 as stated: the decrement of the counter and the test of the queue are one critical
  section. In the code the lock is released between them. With limit 1 the schedule
  \<open>decremented_not_drained\<close> reaches a state in which the finished thread has decremented
  the counter to 0 and has not yet looked at the queue, where \<open>job_b\<close> waits; an
  \<^verbatim>\<open>add_task\<close> that runs there finds capacity and starts \<open>job_c\<close> ahead of the queued job.
\<close>

theorem decrement_then_drain_interleaved:
  "pc (threads (run decremented_not_drained (fresh 1)) ! 0) = Draining \<and>
   current_tasks (run decremented_not_drained (fresh 1)) = 0 \<and>
   queue (run decremented_not_drained (fresh 1)) = [job_b] \<and>
   map task (threads (run (decremented_not_drained @ [Add_Task job_c]) (fresh 1))) =
     [job_a, job_c] \<and>
   queue (run (decremented_not_drained @ [Add_Task job_c]) (fresh 1)) = [job_b]"
  by (simp add: decremented_not_drained_def model_defs job_a_def job_b_def job_c_def)

text \<open>
  C3 as amended: the locked block of \<^verbatim>\<open>task_done\<close> only decrements the counter; the
  test for capacity, the removal of the head of the queue and the start of its thread are
  one atomic step of \<^verbatim>\<open>check_queue\<close>; and along every schedule each job is taken from the
  queue at most as often as it was put in: the jobs taken and the jobs still queued add up
  to the jobs put.
\<close>

theorem pop_and_dispatch_atomic:
  "queue (task_done_locked s) = queue s \<and>
   threads (task_done_locked s) = threads s \<and>
   gets (task_done_locked s) = gets s \<and>
   current_tasks (task_done_locked s) = current_tasks s - 1 \<and>
   (current_tasks s < max_concurrent_tasks s \<and> queue s = j # q \<longrightarrow>
      queue (check_queue s) = q \<and> threads (check_queue s) = threads s @ [spawn j]) \<and>
   (\<forall>x. count_list (gets (run es (fresh k))) x + count_list (queue (run es (fresh k))) x =
        count_list (puts (run es (fresh k))) x)"
proof -
  have h: "puts (run es (fresh k)) = gets (run es (fresh k)) @ queue (run es (fresh k))"
    using accounted_reachable [of es k] by (simp add: accounted_def)
  have c: "\<forall>x. count_list (gets (run es (fresh k))) x + count_list (queue (run es (fresh k))) x =
        count_list (puts (run es (fresh k))) x"
    by (simp add: h)
  have d: "current_tasks s < max_concurrent_tasks s \<and> queue s = j # q \<longrightarrow>
      queue (check_queue s) = q \<and> threads (check_queue s) = threads s @ [spawn j]"
    by (simp add: check_queue_def execute_task_def)
  from c d show ?thesis by (simp add: task_done_locked_def)
qed

theorem pop_and_dispatch_atomic_witness:
  "current_tasks (run decremented_not_drained (fresh 1)) <
     max_concurrent_tasks (run decremented_not_drained (fresh 1)) \<and>
   queue (run decremented_not_drained (fresh 1)) = [job_b] \<and>
   queue (check_queue (run decremented_not_drained (fresh 1))) = [] \<and>
   threads (check_queue (run decremented_not_drained (fresh 1))) =
     threads (run decremented_not_drained (fresh 1)) @ [spawn job_b] \<and>
   count_list (gets (run three_queued (fresh 1))) job_b = 1 \<and>
   count_list (puts (run three_queued (fresh 1))) job_b = 1"
  using pop_and_dispatch_atomic
    [where s = "run decremented_not_drained (fresh 1)" and j = job_b and q = "[]"
      and es = three_queued and k = 1]
  by (simp add: three_queued_state decremented_not_drained_state job_b_def job_c_def)

subsection \<open>The limit given to the constructor\<close>

text \<open>
  C4 as stated: construction with a limit of 0 or less fails. \<^verbatim>\<open>__init__\<close> has no check:
  with limit 0 it returns a manager.
\<close>

theorem init_accepts_zero:
  "TaskManager_init 0 =
     Inr \<lparr>max_concurrent_tasks = 0, current_tasks = 0, queue = [], threads = [],
          printed = [], puts = [], gets = []\<rparr> \<and>
   TaskManager_init 0 \<noteq> Inl Configuration_error"
  by (simp add: TaskManager_init_def fresh_def)

text \<open>
  C4 as amended: construction succeeds for every integer and stores it as the limit; with a
  limit of 0 or less the manager starts no thread, and its queue holds every submitted job
  in the order of submission.
\<close>

theorem init_stores_any_limit:
  "TaskManager_init k = Inr (fresh k) \<and>
   max_concurrent_tasks (fresh k) = k \<and> current_tasks (fresh k) = 0 \<and>
   queue (fresh k) = [] \<and> threads (fresh k) = [] \<and>
   (k \<le> 0 \<longrightarrow>
      threads (run es (fresh k)) = [] \<and> queue (run es (fresh k)) = submitted es)"
  using idle_run [of "fresh k" es] by (simp add: TaskManager_init_def fresh_def)

theorem init_stores_any_limit_witness:
  "(0::int) \<le> 0 \<and> TaskManager_init 0 = Inr (fresh 0) \<and>
   threads (run [Add_Task job_a, Thread_Step 0, Add_Task job_b] (fresh 0)) = [] \<and>
   queue (run [Add_Task job_a, Thread_Step 0, Add_Task job_b] (fresh 0)) = [job_a, job_b]"
proof -
  have z: "(0::int) \<le> 0" by simp
  have sub: "submitted [Add_Task job_a, Thread_Step 0, Add_Task job_b] = [job_a, job_b]"
    by (simp add: job_a_def job_b_def)
  from z init_stores_any_limit [of 0 "[Add_Task job_a, Thread_Step 0, Add_Task job_b]"]
  have "TaskManager_init 0 = Inr (fresh 0) \<and>
      threads (run [Add_Task job_a, Thread_Step 0, Add_Task job_b] (fresh 0)) = [] \<and>
      queue (run [Add_Task job_a, Thread_Step 0, Add_Task job_b] (fresh 0)) =
        submitted [Add_Task job_a, Thread_Step 0, Add_Task job_b]"
    by blast
  with z show ?thesis unfolding sub by blast
qed

subsection \<open>The order of queued jobs\<close>

text \<open>
  C5: a job that finds no capacity is appended to the tail of the queue (its callable has a
  name, or \<^verbatim>\<open>add_task\<close> raises and enqueues nothing); a drain removes
  exactly the head and starts its thread in the same step; and along every schedule the
  jobs taken from the queue are, in order, an initial part of the jobs put into it. So of two
  queued jobs the one put first is taken first: when the job at position \<open>b\<close> has been
  taken, so has the job at every position \<open>a < b\<close>, at its own position.
\<close>

theorem queue_fifo:
  "(\<not> current_tasks s < max_concurrent_tasks s \<and> func_name j \<noteq> None \<longrightarrow>
      add_task j s = Inr (step (Add_Task j) s) \<and>
      queue (step (Add_Task j) s) = queue s @ [j] \<and>
      puts (step (Add_Task j) s) = puts s @ [j] \<and>
      gets (step (Add_Task j) s) = gets s) \<and>
   (current_tasks s < max_concurrent_tasks s \<and> queue s = j # q \<longrightarrow>
      queue (check_queue s) = q \<and> gets (check_queue s) = gets s @ [j] \<and>
      puts (check_queue s) = puts s \<and> threads (check_queue s) = threads s @ [spawn j]) \<and>
   puts (run es (fresh k)) = gets (run es (fresh k)) @ queue (run es (fresh k)) \<and>
   (\<forall>a b. a < b \<and> b < length (gets (run es (fresh k))) \<longrightarrow>
      gets (run es (fresh k)) ! a = puts (run es (fresh k)) ! a \<and>
      gets (run es (fresh k)) ! b = puts (run es (fresh k)) ! b)"
proof -
  have h: "puts (run es (fresh k)) = gets (run es (fresh k)) @ queue (run es (fresh k))"
    using accounted_reachable [of es k] by (simp add: accounted_def)
  have n: "\<forall>a b. a < b \<and> b < length (gets (run es (fresh k))) \<longrightarrow>
      gets (run es (fresh k)) ! a = puts (run es (fresh k)) ! a \<and>
      gets (run es (fresh k)) ! b = puts (run es (fresh k)) ! b"
    using prefix_nth [OF h] by simp
  have a: "\<not> current_tasks s < max_concurrent_tasks s \<and> func_name j \<noteq> None \<longrightarrow>
      add_task j s = Inr (step (Add_Task j) s) \<and>
      queue (step (Add_Task j) s) = queue s @ [j] \<and>
      puts (step (Add_Task j) s) = puts s @ [j] \<and>
      gets (step (Add_Task j) s) = gets s"
    by (auto simp: add_task_def log_line_def)
  have c: "current_tasks s < max_concurrent_tasks s \<and> queue s = j # q \<longrightarrow>
      queue (check_queue s) = q \<and> gets (check_queue s) = gets s @ [j] \<and>
      puts (check_queue s) = puts s \<and> threads (check_queue s) = threads s @ [spawn j]"
    by (simp add: check_queue_def execute_task_def)
  from a c h n show ?thesis by blast
qed

theorem queue_fifo_witness:
  "\<not> current_tasks (fresh 0) < max_concurrent_tasks (fresh 0) \<and>
   func_name job_a \<noteq> None \<and>
   queue (step (Add_Task job_a) (fresh 0)) = [job_a] \<and>
   current_tasks (run decremented_not_drained (fresh 1)) <
     max_concurrent_tasks (run decremented_not_drained (fresh 1)) \<and>
   queue (run decremented_not_drained (fresh 1)) = [job_b] \<and>
   queue (check_queue (run decremented_not_drained (fresh 1))) = [] \<and>
   gets (check_queue (run decremented_not_drained (fresh 1))) = [job_b] \<and>
   (1::nat) < length (gets (run three_queued (fresh 1))) \<and>
   gets (run three_queued (fresh 1)) ! 0 = job_b \<and>
   puts (run three_queued (fresh 1)) ! 0 = job_b \<and>
   gets (run three_queued (fresh 1)) ! 1 = job_c \<and>
   puts (run three_queued (fresh 1)) ! 1 = job_c"
  using queue_fifo [where s = "fresh 0" and j = job_a and es = three_queued and k = 1]
    queue_fifo [where s = "run decremented_not_drained (fresh 1)" and j = job_b
      and q = "[]" and es = three_queued and k = 1]
  by (simp add: three_queued_state decremented_not_drained_state)
     (simp add: fresh_def job_a_def)

subsection \<open>Counting completions\<close>



subsection \<open>Submission does not wait\<close>

text \<open>
  \<^verbatim>\<open>add_task\<close> is a function of the job and the state, defined for every state, and it
  never waits for a slot. For a callable with a name it does what is claimed: with capacity
  it starts the job's thread and leaves the queue alone, without capacity it appends the job
  to the tail of the queue and starts nothing; it changes neither the counter nor the limit.
\<close>

lemma add_task_of_named:
  "func_name j \<noteq> None \<Longrightarrow>
   add_task j s = Inr (step (Add_Task j) s) \<and>
   (current_tasks s < max_concurrent_tasks s \<longrightarrow>
      threads (step (Add_Task j) s) = threads s @ [spawn j] \<and>
      queue (step (Add_Task j) s) = queue s) \<and>
   (\<not> current_tasks s < max_concurrent_tasks s \<longrightarrow>
      queue (step (Add_Task j) s) = queue s @ [j] \<and>
      threads (step (Add_Task j) s) = threads s) \<and>
   current_tasks (step (Add_Task j) s) = current_tasks s \<and>
   max_concurrent_tasks (step (Add_Task j) s) = max_concurrent_tasks s"
  by (auto simp: add_task_def execute_task_def log_line_def)

lemma add_task_of_nameless:
  "func_name j = None \<Longrightarrow> add_task j s = Inl AttributeError \<and> step (Add_Task j) s = s"
  by (simp add: add_task_nameless)

text \<open>
  C7: every job is claimed to be either dispatched or appended to the queue. Both branches
  of \<^verbatim>\<open>add_task\<close> build their message from \<^verbatim>\<open>func.__name__\<close> before they reach
  \<^verbatim>\<open>execute_task\<close> or \<^verbatim>\<open>queue.put\<close>. For the callable \<open>job_p\<close>, which has no name, the
  call raises \<^verbatim>\<open>AttributeError\<close> with capacity (limit 1) and without (limit 0): no thread is
  started, nothing is queued, and the manager is as it was.
\<close>

theorem add_task_without_name_raises:
  "func_name job_p = None \<and>
   add_task job_p (fresh 1) = Inl AttributeError \<and>
   add_task job_p (fresh 0) = Inl AttributeError \<and>
   run [Add_Task job_p] (fresh 1) = fresh 1 \<and>
   run [Add_Task job_p] (fresh 0) = fresh 0 \<and>
   threads (run [Add_Task job_p] (fresh 1)) = [] \<and>
   queue (run [Add_Task job_p] (fresh 0)) = []"
  by (simp add: add_task_def job_p_def) (simp add: fresh_def)

subsection \<open>Draining an empty queue\<close>

text \<open>
  C8: \<^verbatim>\<open>check_queue\<close> on an empty queue changes nothing, whatever the counter is, and has no
  error result: \<^verbatim>\<open>Empty\<close> is caught inside it.
\<close>

theorem check_queue_empty_noop:
  "queue s = [] \<Longrightarrow> check_queue s = s"
  by (simp add: check_queue_def)

theorem check_queue_empty_noop_witness:
  "queue (fresh 2) = [] \<and> check_queue (fresh 2) = fresh 2"
  using check_queue_empty_noop [of "fresh 2"] by (simp add: fresh_def)

subsection \<open>The in-memory manager behaves as its base class\<close>

text \<open>
  C9: on an instance of \<^verbatim>\<open>InMemoryTaskManager\<close> the constructor and every schedule of
  \<^verbatim>\<open>add_task\<close> calls and thread steps do what they do on an instance of
  \<^verbatim>\<open>TaskManager\<close>; and every body that \<^verbatim>\<open>__init__\<close>, \<^verbatim>\<open>add_task\<close>, \<^verbatim>\<open>execute_task\<close>,
  \<^verbatim>\<open>run_task\<close>, \<^verbatim>\<open>check_queue\<close> or \<^verbatim>\<open>task_done\<close> executes on such an instance is a body
  of \<^verbatim>\<open>TaskManager\<close>, the same as on an instance of the base class, and is none of
  \<^verbatim>\<open>create_queue\<close>, \<^verbatim>\<open>enqueue\<close>, \<^verbatim>\<open>dequeue\<close>, \<^verbatim>\<open>is_queue_empty\<close>.
\<close>

theorem in_memory_manager_equivalent:
  "init_as InMemoryTaskManager k = init_as TaskManager k \<and>
   init_as TaskManager k = Some (TaskManager_init k) \<and>
   run_as InMemoryTaskManager es (fresh k) = run_as TaskManager es (fresh k) \<and>
   run_as TaskManager es (fresh k) = Some (run es (fresh k)) \<and>
   (\<forall>m b. m \<in> set [m_init, m_add_task, m_execute_task, m_run_task, m_check_queue, m_task_done] \<and>
          runs InMemoryTaskManager m b \<longrightarrow>
          runs TaskManager m b \<and> fst b = TaskManager \<and>
          snd b \<notin> set [m_create_queue, m_enqueue, m_dequeue, m_is_queue_empty])"
proof -
  have a: "\<forall>m b. m \<in> set [m_init, m_add_task, m_execute_task, m_run_task, m_check_queue, m_task_done] \<and>
          runs InMemoryTaskManager m b \<longrightarrow>
          runs TaskManager m b \<and> fst b = TaskManager \<and>
          snd b \<notin> set [m_create_queue, m_enqueue, m_dequeue, m_is_queue_empty]"
  proof (intro allI impI, elim conjE)
    fix m b
    assume m: "m \<in> set [m_init, m_add_task, m_execute_task, m_run_task, m_check_queue, m_task_done]"
      and r: "runs InMemoryTaskManager m b"
    from m have mb: "m \<in> set base_methods" by (auto simp: base_methods_def)
    from runs_base [OF r mb] runs_same [OF mb, of b] r
    show "runs TaskManager m b \<and> fst b = TaskManager \<and>
          snd b \<notin> set [m_create_queue, m_enqueue, m_dequeue, m_is_queue_empty]"
      by (auto simp: base_methods_def)
  qed
  have i: "init_as c k = Some (TaskManager_init k)" for c
    by (simp add: init_as_def inherits_all_base base_methods_def)
  from a i show ?thesis by (simp add: run_as_run)
qed

theorem in_memory_manager_equivalent_witness:
  "runs InMemoryTaskManager m_add_task (TaskManager, m_execute_task) \<and>
   runs TaskManager m_add_task (TaskManager, m_execute_task) \<and>
   init_as InMemoryTaskManager 1 = Some (Inr (fresh 1)) \<and>
   run_as InMemoryTaskManager two_jobs_done (fresh 1) = Some (run two_jobs_done (fresh 1)) \<and>
   run_as TaskManager two_jobs_done (fresh 1) = Some (run two_jobs_done (fresh 1))"
proof -
  have e: "runs InMemoryTaskManager m_add_task (TaskManager, m_add_task)"
    by (rule runs.entry) (simp add: resolve_def)
  have r: "runs InMemoryTaskManager m_add_task (TaskManager, m_execute_task)"
    by (rule runs.call [OF e]) (simp_all add: resolve_def)
  from r in_memory_manager_equivalent
    [of 1 two_jobs_done, THEN conjunct2, THEN conjunct2, THEN conjunct2, THEN conjunct2,
     THEN spec, THEN spec, of m_add_task "(TaskManager, m_execute_task)"]
  have t: "runs TaskManager m_add_task (TaskManager, m_execute_task)" by simp
  from r t in_memory_manager_equivalent [of 1 two_jobs_done]
  show ?thesis by (simp add: TaskManager_init_def)
qed

subsection \<open>The error string returned by \<^verbatim>\<open>generate_terms\<close>\<close>

text \<open>
  C10: when the call of \<^verbatim>\<open>_generate_response\<close> made in an iteration of the loop ends in its
  handler, it returns \<^verbatim>\<open>"Error: "\<close> followed by the text of the exception, and
  \<^verbatim>\<open>generate_terms\<close> returns that string as it is, whatever \<^verbatim>\<open>search_terms\<close> held and
  however many iterations were left; in particular when the first call fails. The result is
  a string and not a list of strings.
\<close>

theorem generate_terms_raw_error:
  "(try_body st (world i) = Inl e \<longrightarrow>
      generate_response st (world i) = ''Error: '' @ e \<and>
      terms_loop loads st world (Suc n) i search_terms = Inr (PStr (''Error: '' @ e))) \<and>
   (try_body st (world 0) = Inl e \<longrightarrow>
      generate_terms loads st world = Inr (PStr (''Error: '' @ e))) \<and>
   \<not> is_str_list (PStr (''Error: '' @ e))"
proof -
  have "max_retries = Suc 4" by (simp add: max_retries_def)
  then have g: "try_body st (world 0) = Inl e \<longrightarrow>
      generate_terms loads st world = Inr (PStr (''Error: '' @ e))"
    using loop_failure [of st world 0 e loads 4] by (simp only: generate_terms_def) blast
  have l: "try_body st (world i) = Inl e \<longrightarrow>
      generate_response st (world i) = ''Error: '' @ e \<and>
      terms_loop loads st world (Suc n) i search_terms = Inr (PStr (''Error: '' @ e))"
    using loop_failure [of st world i e] failure_has_marker [of st "world i" e] by blast
  have n: "\<not> is_str_list (PStr (''Error: '' @ e))" by simp
  from g l n show ?thesis by blast
qed

theorem generate_terms_raw_error_witness:
  "try_body no_key (silent 0) = Inl ''openai: api_key is not set.'' \<and>
   generate_response no_key (silent 0) = ''Error: openai: api_key is not set.'' \<and>
   terms_loop no_json no_key silent (Suc 0) 0 (PList [PStr ''sea'']) =
     Inr (PStr ''Error: openai: api_key is not set.'') \<and>
   generate_terms no_json no_key silent = Inr (PStr ''Error: openai: api_key is not set.'')"
proof -
  have f: "try_body no_key (silent 0) = Inl ''openai: api_key is not set.''"
    by (simp add: try_body_def no_key_def)
  note t = generate_terms_raw_error
    [of no_key silent 0 "''openai: api_key is not set.''" no_json 0 "PList [PStr ''sea'']"]
  from f t have a: "generate_response no_key (silent 0) =
      ''Error: '' @ ''openai: api_key is not set.''"
    and b: "terms_loop no_json no_key silent (Suc 0) 0 (PList [PStr ''sea'']) =
      Inr (PStr (''Error: '' @ ''openai: api_key is not set.''))"
    and c: "generate_terms no_json no_key silent =
      Inr (PStr (''Error: '' @ ''openai: api_key is not set.''))"
    by blast+
  have e: "''Error: '' @ ''openai: api_key is not set.'' = ''Error: openai: api_key is not set.''"
    by simp
  from f a b c show ?thesis unfolding e by blast
qed

end
